theory Spec2Isabelle
  imports Complex_Main "HOL-Library.Word" "HOL-Library.Multiset" "HOL-Library.Log_Nat"
begin

unbundle bit_operations_syntax

section \<open>Edge decision oracle (ingress\_edge\_decision.hpp)\<close>

text \<open>
  Conventions of the embedding.
  \<^item> \<open>vertex_id_type\<close>, \<open>procid_t\<close> and, in this section, the \<open>size_t\<close> counters are
    natural numbers (a load counter would need \<open>2^64\<close> increments to wrap around).
  \<^item> \<open>fixed_dense_bitset<RPC_MAX_N_PROCS>\<close> is the set of its set bit positions:
    \<open>get(i)\<close> is membership, \<open>set_bit(i)\<close> is \<open>insert i\<close>, \<open>clear()\<close> is the empty set.
  \<^item> In this section \<open>double\<close> is idealised as \<open>real\<close>: every score is the exact value of
    the C++ expression, without rounding, NaN or infinity.  The section on machine
    arithmetic below embeds the same deciders with 64-bit counters and binary64 scores;
    the properties that depend on rounding, NaN or wrap-around (the range of the decisions
    and their symmetry) are stated there.
  \<^item> \<open>graph_hash::hash_edge\<close> is declared in a header that is not part of the sources
    at hand; it is the parameter \<open>hash_edge\<close> of every decider.
  \<^item> The deciders take their bit sets and degree counters by reference.  A reference is
    an address of type \<open>'a\<close> into a store \<open>'a \<Rightarrow> value\<close>; two references may be the same
    address (the front ends pass \<open>dht[source]\<close> and \<open>dht[target]\<close>, the same object for a
    self loop).
  \<^item> Undefined behaviour and assertion failures are error values.
\<close>

type_synonym vertex_id_type = nat
type_synonym procid_t = nat
type_synonym bin_counts_type = "nat set"

datatype error =
    EmptyRange      \<comment> \<open>dereferencing \<open>std::min_element\<close>/\<open>std::max_element\<close> of an empty range\<close>
  | ModuloByZero    \<comment> \<open>\<open>% 0\<close>\<close>
  | OutOfRange      \<comment> \<open>\<open>v[i]\<close> with \<open>i \<ge> v.size()\<close>\<close>
  | AssertFailed    \<comment> \<open>\<open>ASSERT_LT(best_proc, numprocs)\<close> aborts\<close>

text \<open>\<open>edge_pair(std::min(source, target), std::max(source, target))\<close>\<close>

definition edge_pair :: "vertex_id_type \<Rightarrow> vertex_id_type \<Rightarrow> vertex_id_type \<times> vertex_id_type" where
  "edge_pair source target = (min source target, max source target)"

text \<open>First overload of \<open>edge_to_proc_random\<close>: \<open>hash_edge(edge_pair) % numprocs\<close>.\<close>

definition edge_to_proc_random ::
  "(vertex_id_type \<times> vertex_id_type \<Rightarrow> nat) \<Rightarrow> vertex_id_type \<Rightarrow> vertex_id_type \<Rightarrow> nat
     \<Rightarrow> error + procid_t" where
  "edge_to_proc_random hash_edge source target numprocs =
     (if numprocs = 0 then Inl ModuloByZero
      else Inr (hash_edge (edge_pair source target) mod numprocs))"

text \<open>Second overload: \<open>candidates[hash_edge(edge_pair) % candidates.size()]\<close>.\<close>

definition edge_to_proc_random_candidates ::
  "(vertex_id_type \<times> vertex_id_type \<Rightarrow> nat) \<Rightarrow> vertex_id_type \<Rightarrow> vertex_id_type \<Rightarrow> procid_t list
     \<Rightarrow> error + procid_t" where
  "edge_to_proc_random_candidates hash_edge source target candidates =
     (if candidates = [] then Inl ModuloByZero
      else Inr (candidates ! (hash_edge (edge_pair source target) mod length candidates)))"

text \<open>
  \<open>double epsilon = 1.0\<close>, and the balance term of machine \<open>i\<close>:
  \<open>(maxedges - proc_num_edges[i]) / (epsilon + maxedges - minedges)\<close>.
  The numerator is a \<open>size_t\<close> difference (never negative, \<open>maxedges\<close> being the maximum).
\<close>

definition epsilon :: real where
  "epsilon = 1"

definition bal :: "nat list \<Rightarrow> nat \<Rightarrow> real" where
  "bal proc_num_edges i =
     (let minedges = Min (set proc_num_edges);
          maxedges = Max (set proc_num_edges)
      in real (maxedges - proc_num_edges ! i) / (epsilon + real maxedges - real minedges))"

text \<open>
  \<open>size_t sd = src_degree.get(i) + (usehash && (source % numprocs == i))\<close>: the bit plus
  the hash-fallback flag, both 0 or 1.
\<close>

definition degree_presence :: "bin_counts_type \<Rightarrow> bool \<Rightarrow> vertex_id_type \<Rightarrow> nat \<Rightarrow> nat \<Rightarrow> nat" where
  "degree_presence degree usehash v numprocs i =
     (if i \<in> degree then 1 else 0) + (if usehash \<and> v mod numprocs = i then 1 else 0)"

text \<open>The greedy score of machine \<open>i\<close>: \<open>proc_score[i] = bal + ((sd > 0) + (td > 0))\<close>.\<close>

definition greedy_score ::
  "vertex_id_type \<Rightarrow> vertex_id_type \<Rightarrow> bin_counts_type \<Rightarrow> bin_counts_type \<Rightarrow> nat list
     \<Rightarrow> bool \<Rightarrow> nat \<Rightarrow> real" where
  "greedy_score source target src_degree dst_degree proc_num_edges usehash i =
     (let numprocs = length proc_num_edges;
          sd = degree_presence src_degree usehash source numprocs i;
          td = degree_presence dst_degree usehash target numprocs i
      in bal proc_num_edges i
           + real ((if sd > 0 then 1 else 0) + (if td > 0 then (1::nat) else 0)))"

text \<open>
  The HDRF score of machine \<open>i\<close>; \<open>fu\<close> and \<open>fv\<close> are \<open>degree_u / SUM\<close> and
  \<open>degree_v / SUM\<close> with \<open>degree_u = src_true_degree + 1\<close>,
  \<open>degree_v = dst_true_degree + 1\<close> and \<open>SUM = degree_u + degree_v\<close> (written \<open>SUM_uv\<close>).
\<close>

definition hdrf_score ::
  "vertex_id_type \<Rightarrow> vertex_id_type \<Rightarrow> bin_counts_type \<Rightarrow> bin_counts_type \<Rightarrow> nat \<Rightarrow> nat
     \<Rightarrow> nat list \<Rightarrow> bool \<Rightarrow> nat \<Rightarrow> real" where
  "hdrf_score source target src_degree dst_degree src_true_degree dst_true_degree
       proc_num_edges usehash i =
     (let numprocs = length proc_num_edges;
          degree_u = src_true_degree + 1;
          degree_v = dst_true_degree + 1;
          SUM_uv = degree_u + degree_v;
          fu = real degree_u / real SUM_uv;
          fv = real degree_v / real SUM_uv;
          sd = degree_presence src_degree usehash source numprocs i;
          td = degree_presence dst_degree usehash target numprocs i;
          new_sd = (if sd > 0 then 1 + (1 - fu) else 0);
          new_td = (if td > 0 then 1 + (1 - fv) else 0)
      in bal proc_num_edges i + new_sd + new_td)"

text \<open>
  The tied-top set: the positions \<open>j\<close> of the score vector with
  \<open>std::fabs(proc_score[j] - maxscore) < 1e-5\<close>, in increasing order.
\<close>

definition top_positions :: "real list \<Rightarrow> nat list" where
  "top_positions proc_score =
     (let maxscore = Max (set proc_score)
      in filter (\<lambda>j. \<bar>proc_score ! j - maxscore\<bar> < 1 / 100000) [0..<length proc_score])"

text \<open>
  \<open>best_proc = top_procs[hash_edge(edge_pair) % top_procs.size()]\<close> followed by
  \<open>ASSERT_LT(best_proc, numprocs)\<close>.
\<close>

definition pick_best ::
  "(vertex_id_type \<times> vertex_id_type \<Rightarrow> nat) \<Rightarrow> vertex_id_type \<Rightarrow> vertex_id_type
     \<Rightarrow> procid_t list \<Rightarrow> nat \<Rightarrow> error + procid_t" where
  "pick_best hash_edge source target top_procs numprocs =
     (if top_procs = [] then Inl ModuloByZero
      else let best_proc = top_procs ! (hash_edge (edge_pair source target) mod length top_procs)
           in if best_proc < numprocs then Inr best_proc else Inl AssertFailed)"

text \<open>
  The update after the choice, shared by all scorers:
  \<open>if (userecent) { src_degree.clear(); dst_degree.clear(); }
    src_degree.set_bit(best_proc); dst_degree.set_bit(best_proc);\<close>
  on the store of bit sets, statement by statement.
\<close>

definition place_replica :: "'a \<Rightarrow> 'a \<Rightarrow> bool \<Rightarrow> procid_t \<Rightarrow> ('a \<Rightarrow> bin_counts_type) \<Rightarrow> ('a \<Rightarrow> bin_counts_type)" where
  "place_replica src dst userecent best_proc bits =
     (let b1 = (if userecent then (bits(src := {}))(dst := {}) else bits);
          b2 = b1(src := insert best_proc (b1 src));
          b3 = b2(dst := insert best_proc (b2 dst))
      in b3)"

text \<open>
  \<open>edge_to_proc_greedy\<close>, first overload (all machines are candidates).  The result is the
  chosen machine, the store of bit sets and the load vector after the call.
\<close>

definition edge_to_proc_greedy ::
  "(vertex_id_type \<times> vertex_id_type \<Rightarrow> nat) \<Rightarrow> vertex_id_type \<Rightarrow> vertex_id_type \<Rightarrow> 'a \<Rightarrow> 'a
     \<Rightarrow> ('a \<Rightarrow> bin_counts_type) \<Rightarrow> nat list \<Rightarrow> bool \<Rightarrow> bool
     \<Rightarrow> error + (procid_t \<times> ('a \<Rightarrow> bin_counts_type) \<times> nat list)" where
  "edge_to_proc_greedy hash_edge source target src dst bits proc_num_edges usehash userecent =
     (let numprocs = length proc_num_edges
      in if proc_num_edges = [] then Inl EmptyRange
         else
           let proc_score = map (greedy_score source target (bits src) (bits dst)
                                   proc_num_edges usehash) [0..<numprocs];
               top_procs = top_positions proc_score
           in case pick_best hash_edge source target top_procs numprocs of
                Inl e \<Rightarrow> Inl e
              | Inr best_proc \<Rightarrow>
                  Inr (best_proc,
                       place_replica src dst userecent best_proc bits,
                       proc_num_edges[best_proc := proc_num_edges ! best_proc + 1]))"

text \<open>
  \<open>edge_to_proc_greedy\<close>, second overload: only the machines of \<open>candidates\<close> are scored.
  \<open>proc_num_edges[i]\<close> is read for every candidate \<open>i\<close>, so a candidate outside the load
  vector is an out-of-range read.
\<close>

definition edge_to_proc_greedy_candidates ::
  "(vertex_id_type \<times> vertex_id_type \<Rightarrow> nat) \<Rightarrow> vertex_id_type \<Rightarrow> vertex_id_type \<Rightarrow> 'a \<Rightarrow> 'a
     \<Rightarrow> ('a \<Rightarrow> bin_counts_type) \<Rightarrow> procid_t list \<Rightarrow> nat list \<Rightarrow> bool \<Rightarrow> bool
     \<Rightarrow> error + (procid_t \<times> ('a \<Rightarrow> bin_counts_type) \<times> nat list)" where
  "edge_to_proc_greedy_candidates hash_edge source target src dst bits candidates
       proc_num_edges usehash userecent =
     (let numprocs = length proc_num_edges
      in if proc_num_edges = [] then Inl EmptyRange
         else if \<exists>i \<in> set candidates. numprocs \<le> i then Inl OutOfRange
         else if candidates = [] then Inl EmptyRange
         else
           let proc_score = map (greedy_score source target (bits src) (bits dst)
                                   proc_num_edges usehash) candidates;
               top_procs = map (\<lambda>j. candidates ! j) (top_positions proc_score)
           in case pick_best hash_edge source target top_procs numprocs of
                Inl e \<Rightarrow> Inl e
              | Inr best_proc \<Rightarrow>
                  Inr (best_proc,
                       place_replica src dst userecent best_proc bits,
                       proc_num_edges[best_proc := proc_num_edges ! best_proc + 1]))"

text \<open>
  \<open>edge_to_proc_hdrf\<close>.  The true-degree counters are references as well
  (\<open>size_t& src_true_degree\<close>, \<open>size_t& dst_true_degree\<close>); \<open>++src_true_degree;
  ++dst_true_degree\<close> are two successive updates of the store of counters.
\<close>

definition edge_to_proc_hdrf ::
  "(vertex_id_type \<times> vertex_id_type \<Rightarrow> nat) \<Rightarrow> vertex_id_type \<Rightarrow> vertex_id_type \<Rightarrow> 'a \<Rightarrow> 'a
     \<Rightarrow> ('a \<Rightarrow> bin_counts_type) \<Rightarrow> 'b \<Rightarrow> 'b \<Rightarrow> ('b \<Rightarrow> nat) \<Rightarrow> nat list \<Rightarrow> bool \<Rightarrow> bool
     \<Rightarrow> error + (procid_t \<times> ('a \<Rightarrow> bin_counts_type) \<times> ('b \<Rightarrow> nat) \<times> nat list)" where
  "edge_to_proc_hdrf hash_edge source target src dst bits src_true dst_true degs
       proc_num_edges usehash userecent =
     (let numprocs = length proc_num_edges
      in if proc_num_edges = [] then Inl EmptyRange
         else
           let proc_score = map (hdrf_score source target (bits src) (bits dst)
                                   (degs src_true) (degs dst_true) proc_num_edges usehash)
                                [0..<numprocs];
               top_procs = top_positions proc_score
           in case pick_best hash_edge source target top_procs numprocs of
                Inl e \<Rightarrow> Inl e
              | Inr best_proc \<Rightarrow>
                  let d1 = degs(src_true := degs src_true + 1);
                      d2 = d1(dst_true := d1 dst_true + 1)
                  in Inr (best_proc,
                          place_replica src dst userecent best_proc bits,
                          d2,
                          proc_num_edges[best_proc := proc_num_edges ! best_proc + 1]))"


section \<open>Ingress front ends (distributed\_oblivious\_ingress.hpp, distributed\_hdrf\_ingress.hpp)\<close>

text \<open>
  Modelled from the spec: \<open>cuckoo_map_pow2\<close>, the table type of both front ends, is
  included from a header that is not part of the sources at hand.  The spec's contract
  of the Degree/Replica Table is used: \<open>lookup-or-default(key)\<close> returns a mutable
  reference to the existing entry or inserts a zero-valued one and never fails, and
  \<open>clear()\<close> empties the table.  A table is the set of its keys together with the
  storage of the values; the reference to the entry of a key is the key itself.
\<close>

record 'v table =
  entries :: "vertex_id_type set"
  slot :: "vertex_id_type \<Rightarrow> 'v"

definition table_new :: "'v \<Rightarrow> 'v table" where
  "table_new dflt = \<lparr>entries = {}, slot = (\<lambda>_. dflt)\<rparr>"

text \<open>Modelled from the spec: \<open>lookup-or-default\<close> (\<open>operator[]\<close>).\<close>

definition table_index :: "'v \<Rightarrow> 'v table \<Rightarrow> vertex_id_type \<Rightarrow> 'v table" where
  "table_index dflt t k =
     (if k \<in> entries t then t
      else t\<lparr>entries := insert k (entries t), slot := (slot t)(k := dflt)\<rparr>)"

text \<open>Modelled from the spec: \<open>clear()\<close>.\<close>

definition table_clear :: "'v \<Rightarrow> 'v table \<Rightarrow> 'v table" where
  "table_clear dflt t = table_new dflt"

subsection \<open>The HDRF front end\<close>

record hdrf_ingress =
  hdrf_dht :: "bin_counts_type table"
  hdrf_degree_dht :: "nat table"
  hdrf_proc_num_edges :: "nat list"
  hdrf_usehash :: bool
  hdrf_userecent :: bool

text \<open>
  The constructor: \<open>dht(-1), degree_dht(-1), proc_num_edges(dc.numprocs()),
  usehash(usehash), userecent(userecent)\<close>; \<open>numprocs\<close> is \<open>dc.numprocs()\<close>.
\<close>

definition hdrf_ingress_new :: "nat \<Rightarrow> bool \<Rightarrow> bool \<Rightarrow> hdrf_ingress" where
  "hdrf_ingress_new numprocs uh ur =
     \<lparr>hdrf_dht = table_new {}, hdrf_degree_dht = table_new 0,
      hdrf_proc_num_edges = replicate numprocs 0,
      hdrf_usehash = uh, hdrf_userecent = ur\<rparr>"

text \<open>
  \<open>add_edge\<close>: \<open>dht[source]; dht[target]; degree_dht[source]; degree_dht[target];\<close>
  then \<open>edge_to_proc_hdrf(source, target, dht[source], dht[target], degree_dht[source],
  degree_dht[target], proc_num_edges, usehash, userecent)\<close>.  The second round of
  \<open>operator[]\<close> finds the entries of the first, whatever the order of evaluation of the
  arguments.  The result is the owning machine the edge record is sent to, and the new
  state.
\<close>

definition hdrf_add_edge ::
  "(vertex_id_type \<times> vertex_id_type \<Rightarrow> nat) \<Rightarrow> hdrf_ingress \<Rightarrow> vertex_id_type \<Rightarrow> vertex_id_type
     \<Rightarrow> error + (procid_t \<times> hdrf_ingress)" where
  "hdrf_add_edge hash_edge st source target =
     (let d1 = table_index {} (table_index {} (hdrf_dht st) source) target;
          g1 = table_index 0 (table_index 0 (hdrf_degree_dht st) source) target;
          d2 = table_index {} (table_index {} d1 source) target;
          g2 = table_index 0 (table_index 0 g1 source) target
      in case edge_to_proc_hdrf hash_edge source target source target (slot d2)
                source target (slot g2) (hdrf_proc_num_edges st)
                (hdrf_usehash st) (hdrf_userecent st) of
           Inl e \<Rightarrow> Inl e
         | Inr (owning_proc, bits, degs, loads) \<Rightarrow>
             Inr (owning_proc,
                  st\<lparr>hdrf_dht := d2\<lparr>slot := bits\<rparr>,
                     hdrf_degree_dht := g2\<lparr>slot := degs\<rparr>,
                     hdrf_proc_num_edges := loads\<rparr>))"

text \<open>A sequence of \<open>add_edge\<close> calls on one machine, in order.\<close>

fun hdrf_add_edges ::
  "(vertex_id_type \<times> vertex_id_type \<Rightarrow> nat) \<Rightarrow> hdrf_ingress \<Rightarrow> (vertex_id_type \<times> vertex_id_type) list
     \<Rightarrow> error + hdrf_ingress" where
  "hdrf_add_edges hash_edge st [] = Inr st"
| "hdrf_add_edges hash_edge st ((source, target) # es) =
     (case hdrf_add_edge hash_edge st source target of
        Inl e \<Rightarrow> Inl e
      | Inr (owning_proc, st') \<Rightarrow> hdrf_add_edges hash_edge st' es)"

text \<open>
  \<open>finalize\<close>: \<open>dht.clear(); degree_dht.clear();\<close>, the base class's \<open>finalize()\<close> (out
  of scope here; it has no access to the members of this class), then the loop
  \<open>count = count + *it\<close> over \<open>proc_num_edges\<close>.  The result is the state and the count
  that is logged as \<open>TOTAL PROCESSED ELEMENTS\<close>.
\<close>

definition hdrf_finalize :: "hdrf_ingress \<Rightarrow> hdrf_ingress \<times> nat" where
  "hdrf_finalize st =
     (let st1 = st\<lparr>hdrf_dht := table_clear {} (hdrf_dht st)\<rparr>;
          st2 = st1\<lparr>hdrf_degree_dht := table_clear 0 (hdrf_degree_dht st1)\<rparr>;
          count = fold (\<lambda>x count. count + x) (hdrf_proc_num_edges st2) 0
      in (st2, count))"

text \<open>
  The spec's words for what \<open>finalize\<close> reports, ``the total edge count observed across
  all machines'': a cluster is the list of the front-end states of its machines, and the
  global count is the sum of the edges decided on each of them.
\<close>

definition global_edge_count :: "hdrf_ingress list \<Rightarrow> nat" where
  "global_edge_count cluster = sum_list (map (\<lambda>m. sum_list (hdrf_proc_num_edges m)) cluster)"

subsection \<open>The oblivious front end\<close>





subsection \<open>The greedy score in the words of the spec\<close>

text \<open>
  The spec's formula, for comparison with \<open>greedy_score\<close>:
  \<open>bonus(i) = [srcReplica.hasBit(i)] + [dstReplica.hasBit(i)]\<close>, ``optionally adding 1 to
  the bonus term if a hash fallback policy is enabled and \<open>source mod numMachines == i\<close>
  (or target, respectively)'', and \<open>score(i) = balance(i) + bonus(i)\<close>.
\<close>

definition greedy_score_spec ::
  "vertex_id_type \<Rightarrow> vertex_id_type \<Rightarrow> bin_counts_type \<Rightarrow> bin_counts_type \<Rightarrow> nat list
     \<Rightarrow> bool \<Rightarrow> nat \<Rightarrow> real" where
  "greedy_score_spec source target src_degree dst_degree proc_num_edges usehash i =
     (let numprocs = length proc_num_edges;
          bonus = (if i \<in> src_degree then 1 else 0) + (if i \<in> dst_degree then 1 else 0)
                  + (if usehash \<and> source mod numprocs = i then 1 else 0)
                  + (if usehash \<and> target mod numprocs = i then (1::nat) else 0)
      in bal proc_num_edges i + real bonus)"



section \<open>Edge decision oracle in machine arithmetic (ingress\_edge\_decision.hpp)\<close>

text \<open>
  The greedy and HDRF deciders once more, with \<open>size_t\<close> as \<open>64 word\<close> and \<open>double\<close> as
  IEEE 754 binary64.  The names carry the suffix \<open>_m\<close>; \<open>edge_pair\<close>, \<open>degree_presence\<close>,
  \<open>pick_best\<close>, \<open>place_replica\<close> and the two random deciders involve neither counters nor
  doubles and are the ones defined above.

  Conventions for \<open>double\<close>.
  \<^item> A double is a finite value, an infinity or NaN.  A finite double is represented by
    the real number it denotes.  The sign of zero is not represented: the only operation
    of these functions that could tell the zeros apart is a division by zero, and every
    divisor here is a converted \<open>size_t\<close> or a difference \<open>x - y\<close> with \<open>y \<le> x\<close>, whose
    zero is \<open>+0\<close>.
  \<^item> Every operation is the exact operation followed by \<open>round_double\<close>: rounding to the
    nearest value with a 53-bit significand, ties to the even significand, gradual
    underflow below \<open>2^-1022\<close> and overflow to an infinity from \<open>2^1024\<close> on.  This is the
    arithmetic of the SSE2 instructions that compilers use for \<open>double\<close> on x86-64
    (\<open>FLT_EVAL_METHOD = 0\<close>) in the default rounding mode.
  \<^item> \<open>expo a\<close> is the exponent \<open>e\<close> with \<open>2^e \<le> a < 2^(e+1)\<close>, for \<open>a > 0\<close>.
\<close>

datatype double = Fin real | PInf | NInf | NaN

definition round_half_even :: "real \<Rightarrow> int" where
  "round_half_even y =
     (let f = \<lfloor>y\<rfloor>; d = y - of_int f
      in if d < 1 / 2 then f else if 1 / 2 < d then f + 1 else if even f then f else f + 1)"

definition expo :: "real \<Rightarrow> int" where
  "expo a = (if 1 \<le> a then bitlen \<lfloor>a\<rfloor> - 1 else - bitlen (\<lceil>1 / a\<rceil> - 1))"

definition round_double :: "real \<Rightarrow> double" where
  "round_double x =
     (if x = 0 then Fin 0
      else let a = \<bar>x\<bar>;
               e = max (expo a) (- 1022);
               u = 2 powi (e - 52);
               r = of_int (round_half_even (a / u)) * u
           in if 2 powi 1024 \<le> r then (if 0 < x then PInf else NInf)
              else Fin (if 0 < x then r else - r))"

text \<open>\<open>a + b\<close>, \<open>- a\<close>, \<open>a - b\<close>, \<open>a / b\<close>, \<open>std::fabs(a)\<close> and \<open>a < b\<close> on doubles.\<close>

fun dadd :: "double \<Rightarrow> double \<Rightarrow> double" where
  "dadd (Fin x) (Fin y) = round_double (x + y)"
| "dadd NaN b = NaN"
| "dadd a NaN = NaN"
| "dadd PInf NInf = NaN"
| "dadd NInf PInf = NaN"
| "dadd PInf b = PInf"
| "dadd a PInf = PInf"
| "dadd NInf b = NInf"
| "dadd a NInf = NInf"

fun dneg :: "double \<Rightarrow> double" where
  "dneg (Fin x) = Fin (- x)"
| "dneg PInf = NInf"
| "dneg NInf = PInf"
| "dneg NaN = NaN"

definition dsub :: "double \<Rightarrow> double \<Rightarrow> double" where
  "dsub a b = dadd a (dneg b)"

fun ddiv :: "double \<Rightarrow> double \<Rightarrow> double" where
  "ddiv (Fin x) (Fin y) =
     (if y = 0 then (if x = 0 then NaN else if 0 < x then PInf else NInf)
      else round_double (x / y))"
| "ddiv NaN b = NaN"
| "ddiv a NaN = NaN"
| "ddiv (Fin x) b = Fin 0"
| "ddiv PInf (Fin y) = (if 0 \<le> y then PInf else NInf)"
| "ddiv NInf (Fin y) = (if 0 \<le> y then NInf else PInf)"
| "ddiv a b = NaN"

fun dabs :: "double \<Rightarrow> double" where
  "dabs (Fin x) = Fin \<bar>x\<bar>"
| "dabs PInf = PInf"
| "dabs NInf = PInf"
| "dabs NaN = NaN"

fun dless :: "double \<Rightarrow> double \<Rightarrow> bool" where
  "dless (Fin x) (Fin y) = (x < y)"
| "dless NaN b = False"
| "dless a NaN = False"
| "dless a NInf = False"
| "dless PInf b = False"
| "dless a b = True"

text \<open>
  The conversions of a \<open>size_t\<close> and of an \<open>int\<close> to \<open>double\<close>, and the literal \<open>1e-5\<close>,
  which is the double nearest to \<open>1/100000\<close>.
\<close>

definition double_of_size_t :: "64 word \<Rightarrow> double" where
  "double_of_size_t w = round_double (of_int (uint w))"

definition double_of_int :: "int \<Rightarrow> double" where
  "double_of_int k = round_double (of_int k)"

definition tolerance :: double where
  "tolerance = round_double (1 / 100000)"

text \<open>
  \<open>*std::max_element(first, last)\<close> on a non-empty range of doubles: the first element
  is the candidate, and a later element replaces it when \<open>candidate < element\<close>.
\<close>

definition max_element :: "double list \<Rightarrow> double" where
  "max_element xs = foldl (\<lambda>largest x. if dless largest x then x else largest) (hd xs) (tl xs)"

text \<open>
  \<open>double bal = (maxedges - proc_num_edges[i]) / (epsilon + maxedges - minedges)\<close>: the
  numerator is a \<open>size_t\<close> difference that is converted for the division; the divisor is
  \<open>(epsilon + (double) maxedges) - (double) minedges\<close> with \<open>epsilon = 1.0\<close>, two rounded
  operations.
\<close>

definition bal_m :: "64 word list \<Rightarrow> nat \<Rightarrow> double" where
  "bal_m proc_num_edges i =
     (let minedges = Min (set proc_num_edges);
          maxedges = Max (set proc_num_edges)
      in ddiv (double_of_size_t (maxedges - proc_num_edges ! i))
              (dsub (dadd (Fin 1) (double_of_size_t maxedges)) (double_of_size_t minedges)))"

text \<open>
  \<open>proc_score[i] = bal + ((sd > 0) + (td > 0))\<close>: the two comparisons are added as \<open>int\<close>,
  and the sum is converted and added to \<open>bal\<close> in one operation.
\<close>

definition greedy_score_m ::
  "vertex_id_type \<Rightarrow> vertex_id_type \<Rightarrow> bin_counts_type \<Rightarrow> bin_counts_type \<Rightarrow> 64 word list
     \<Rightarrow> bool \<Rightarrow> nat \<Rightarrow> double" where
  "greedy_score_m source target src_degree dst_degree proc_num_edges usehash i =
     (let numprocs = length proc_num_edges;
          sd = degree_presence src_degree usehash source numprocs i;
          td = degree_presence dst_degree usehash target numprocs i
      in dadd (bal_m proc_num_edges i)
              (double_of_int ((if sd > 0 then 1 else 0) + (if td > 0 then 1 else 0))))"

text \<open>
  The HDRF score.  \<open>degree_u = src_true_degree + 1\<close>, \<open>degree_v = dst_true_degree + 1\<close> and
  \<open>SUM = degree_u + degree_v\<close> are \<open>size_t\<close> additions, which wrap; \<open>double fu = degree_u;
  fu /= SUM\<close> divides the two converted values; \<open>new_sd = 1 + (1 - fu)\<close> is two operations;
  \<open>proc_score[i] = bal + new_sd + new_td\<close> is \<open>(bal + new_sd) + new_td\<close>.
\<close>

definition hdrf_score_m ::
  "vertex_id_type \<Rightarrow> vertex_id_type \<Rightarrow> bin_counts_type \<Rightarrow> bin_counts_type \<Rightarrow> 64 word \<Rightarrow> 64 word
     \<Rightarrow> 64 word list \<Rightarrow> bool \<Rightarrow> nat \<Rightarrow> double" where
  "hdrf_score_m source target src_degree dst_degree src_true_degree dst_true_degree
       proc_num_edges usehash i =
     (let numprocs = length proc_num_edges;
          degree_u = src_true_degree + 1;
          degree_v = dst_true_degree + 1;
          SUM_uv = degree_u + degree_v;
          fu = ddiv (double_of_size_t degree_u) (double_of_size_t SUM_uv);
          fv = ddiv (double_of_size_t degree_v) (double_of_size_t SUM_uv);
          sd = degree_presence src_degree usehash source numprocs i;
          td = degree_presence dst_degree usehash target numprocs i;
          new_sd = (if sd > 0 then dadd (Fin 1) (dsub (Fin 1) fu) else Fin 0);
          new_td = (if td > 0 then dadd (Fin 1) (dsub (Fin 1) fv) else Fin 0)
      in dadd (dadd (bal_m proc_num_edges i) new_sd) new_td)"

text \<open>
  The tied-top set: the positions \<open>j\<close> with \<open>std::fabs(proc_score[j] - maxscore) < 1e-5\<close>.
  A comparison with NaN is false.
\<close>

definition top_positions_m :: "double list \<Rightarrow> nat list" where
  "top_positions_m proc_score =
     (let maxscore = max_element proc_score
      in filter (\<lambda>j. dless (dabs (dsub (proc_score ! j) maxscore)) tolerance)
           [0..<length proc_score])"

text \<open>
  The three deciders.  \<open>++proc_num_edges[best_proc]\<close>, \<open>++src_true_degree\<close> and
  \<open>++dst_true_degree\<close> are additions on \<open>64 word\<close>.
\<close>

definition edge_to_proc_greedy_m ::
  "(vertex_id_type \<times> vertex_id_type \<Rightarrow> nat) \<Rightarrow> vertex_id_type \<Rightarrow> vertex_id_type \<Rightarrow> 'a \<Rightarrow> 'a
     \<Rightarrow> ('a \<Rightarrow> bin_counts_type) \<Rightarrow> 64 word list \<Rightarrow> bool \<Rightarrow> bool
     \<Rightarrow> error + (procid_t \<times> ('a \<Rightarrow> bin_counts_type) \<times> 64 word list)" where
  "edge_to_proc_greedy_m hash_edge source target src dst bits proc_num_edges usehash userecent =
     (let numprocs = length proc_num_edges
      in if proc_num_edges = [] then Inl EmptyRange
         else
           let proc_score = map (greedy_score_m source target (bits src) (bits dst)
                                   proc_num_edges usehash) [0..<numprocs];
               top_procs = top_positions_m proc_score
           in case pick_best hash_edge source target top_procs numprocs of
                Inl e \<Rightarrow> Inl e
              | Inr best_proc \<Rightarrow>
                  Inr (best_proc,
                       place_replica src dst userecent best_proc bits,
                       proc_num_edges[best_proc := proc_num_edges ! best_proc + 1]))"

definition edge_to_proc_greedy_candidates_m ::
  "(vertex_id_type \<times> vertex_id_type \<Rightarrow> nat) \<Rightarrow> vertex_id_type \<Rightarrow> vertex_id_type \<Rightarrow> 'a \<Rightarrow> 'a
     \<Rightarrow> ('a \<Rightarrow> bin_counts_type) \<Rightarrow> procid_t list \<Rightarrow> 64 word list \<Rightarrow> bool \<Rightarrow> bool
     \<Rightarrow> error + (procid_t \<times> ('a \<Rightarrow> bin_counts_type) \<times> 64 word list)" where
  "edge_to_proc_greedy_candidates_m hash_edge source target src dst bits candidates
       proc_num_edges usehash userecent =
     (let numprocs = length proc_num_edges
      in if proc_num_edges = [] then Inl EmptyRange
         else if \<exists>i \<in> set candidates. numprocs \<le> i then Inl OutOfRange
         else if candidates = [] then Inl EmptyRange
         else
           let proc_score = map (greedy_score_m source target (bits src) (bits dst)
                                   proc_num_edges usehash) candidates;
               top_procs = map (\<lambda>j. candidates ! j) (top_positions_m proc_score)
           in case pick_best hash_edge source target top_procs numprocs of
                Inl e \<Rightarrow> Inl e
              | Inr best_proc \<Rightarrow>
                  Inr (best_proc,
                       place_replica src dst userecent best_proc bits,
                       proc_num_edges[best_proc := proc_num_edges ! best_proc + 1]))"

definition edge_to_proc_hdrf_m ::
  "(vertex_id_type \<times> vertex_id_type \<Rightarrow> nat) \<Rightarrow> vertex_id_type \<Rightarrow> vertex_id_type \<Rightarrow> 'a \<Rightarrow> 'a
     \<Rightarrow> ('a \<Rightarrow> bin_counts_type) \<Rightarrow> 'b \<Rightarrow> 'b \<Rightarrow> ('b \<Rightarrow> 64 word) \<Rightarrow> 64 word list \<Rightarrow> bool \<Rightarrow> bool
     \<Rightarrow> error + (procid_t \<times> ('a \<Rightarrow> bin_counts_type) \<times> ('b \<Rightarrow> 64 word) \<times> 64 word list)" where
  "edge_to_proc_hdrf_m hash_edge source target src dst bits src_true dst_true degs
       proc_num_edges usehash userecent =
     (let numprocs = length proc_num_edges
      in if proc_num_edges = [] then Inl EmptyRange
         else
           let proc_score = map (hdrf_score_m source target (bits src) (bits dst)
                                   (degs src_true) (degs dst_true) proc_num_edges usehash)
                                [0..<numprocs];
               top_procs = top_positions_m proc_score
           in case pick_best hash_edge source target top_procs numprocs of
                Inl e \<Rightarrow> Inl e
              | Inr best_proc \<Rightarrow>
                  let d1 = degs(src_true := degs src_true + 1);
                      d2 = d1(dst_true := d1 dst_true + 1)
                  in Inr (best_proc,
                          place_replica src dst userecent best_proc bits,
                          d2,
                          proc_num_edges[best_proc := proc_num_edges ! best_proc + 1]))"

text \<open>\<open>bounded_by k d\<close>: \<open>d\<close> is finite and of magnitude at most \<open>2^k\<close>.\<close>

fun bounded_by :: "int \<Rightarrow> double \<Rightarrow> bool" where
  "bounded_by k (Fin r) = (\<bar>r\<bar> \<le> 2 powi k)"
| "bounded_by k d = False"

section \<open>Cuckoo map (cuckoo\_map.hpp)\<close>

text \<open>
  Conventions of the embedding of \<open>cuckoo_map<Key, Value, CuckooK = 3, IndexType = size_t>\<close>.
  \<^item> The object is a record of its members.  \<open>numel\<close> is a 64-bit word as in the source
    (\<open>++numel\<close>, \<open>--numel\<close> and \<open>numel -= stmp.size()\<close> wrap); \<open>datalen\<close>, \<open>maxstash\<close> and
    slot indices are natural numbers, they are bounded by the length of the array.
  \<^item> \<open>data\<close> is the array as a list of pairs; \<open>datalen\<close> is kept as its own member, as in
    the source.  \<open>keyeq\<close> is equality on \<open>'k\<close>.
  \<^item> \<open>stash\<close> (a \<open>boost::unordered_map\<close>) is an association list.  Its iteration order is
    not specified by the container; the list order stands for it.  \<open>stash.insert\<close> keeps
    an existing key, \<open>stash.find\<close> and \<open>stash.end()\<close> are \<open>Some k\<close> and \<open>None\<close>.
  \<^item> \<open>hashfun\<close> is the member of that name with results in \<open>size_t\<close>; \<open>mapped_type()\<close>
    is the member \<open>mapped_default\<close>.
  \<^item> \<open>kranddist(drng)\<close> is \<open>kranddist m (drng m)\<close>: it yields the drawn number and the next
    generator state.  \<open>uniform_int(0, CuckooK - 1)\<close> draws below \<open>CuckooK\<close>, so the drawn
    number is taken \<open>mod CuckooK\<close>.  No property below depends on the numbers drawn.
  \<^item> An iterator is \<open>VecIter i\<close> (\<open>in_stash = false\<close>, \<open>vec_iter = data + i\<close>) or
    \<open>StashIter s\<close> (\<open>in_stash = true\<close>); \<open>end()\<close> is \<open>StashIter None\<close>.
  \<^item> \<open>do_insert\<close>, \<open>reserve\<close>, \<open>rehash\<close> and \<open>insert\<close> call each other.  They carry a
    bound \<open>n\<close> on the nesting depth of \<open>reserve\<close> and return \<open>None\<close> when it is used up;
    that the calls return is proved separately (\<open>do_insert_terminates\<close>,
    \<open>reserve_terminates\<close>).
\<close>

definition CuckooK :: nat where
  "CuckooK = 3"

record ('k, 'v) cuckoo_map =
  illegalkey :: 'k
  numel :: "64 word"
  maxstash :: nat
  data :: "('k \<times> 'v) list"
  datalen :: nat
  stash :: "('k \<times> 'v) list"
  drng :: nat
  kranddist :: "nat \<Rightarrow> nat \<times> nat"
  hashfun :: "'k \<Rightarrow> 64 word"
  mapped_default :: 'v

datatype 'k iterator = VecIter nat | StashIter "'k option"

text \<open>\<open>mix\<close> and \<open>compute_hash\<close>, for \<open>__SIZEOF_PTRDIFF_T__ == 8\<close>.\<close>

definition mix :: "64 word \<Rightarrow> 64 word" where
  "mix state =
     (let s1 = state + push_bit 12 state;
          s2 = s1 XOR drop_bit 22 s1;
          s3 = s2 + push_bit 4 s2;
          s4 = s3 XOR drop_bit 9 s3;
          s5 = s4 + push_bit 10 s4;
          s6 = s5 XOR drop_bit 2 s5;
          s7 = s6 + push_bit 7 s6;
          s8 = s7 XOR drop_bit 12 s7
      in s8)"

definition hash_seeds :: "64 word list" where
  "hash_seeds = [0x6306AA9DFC13C8E7, 0xA8CD7FBCA2A9FFD4, 0x40D341EB597ECDDC,
                 0x99CFA1168AF8DA7E, 0x7C55BCC3AF531D42, 0x1BC49DB0842A21DD,
                 0x2181F03B1DEE299F, 0xD524D92CBFEC63E9]"

definition compute_hash :: "nat \<Rightarrow> 64 word \<Rightarrow> nat \<Rightarrow> nat" where
  "compute_hash dlen k seed = unat (mix ((hash_seeds ! seed) XOR k)) mod dlen"

definition candidate_slots :: "('k, 'v) cuckoo_map \<Rightarrow> 'k \<Rightarrow> nat list" where
  "candidate_slots m k = map (compute_hash (datalen m) (hashfun m k)) [0..<CuckooK]"

text \<open>\<open>find\<close>, \<open>count\<close> and \<open>end\<close>: the candidate slots are probed in order, then the stash.\<close>

definition stash_find :: "('k \<times> 'v) list \<Rightarrow> 'k \<Rightarrow> 'k option" where
  "stash_find s k = (if k \<in> set (map fst s) then Some k else None)"

definition cuckoo_end :: "('k, 'v) cuckoo_map \<Rightarrow> 'k iterator" where
  "cuckoo_end m = StashIter None"

definition cuckoo_find :: "('k, 'v) cuckoo_map \<Rightarrow> 'k \<Rightarrow> 'k iterator" where
  "cuckoo_find m k =
     (case List.find (\<lambda>idx. fst (data m ! idx) = k) (candidate_slots m k) of
        Some idx \<Rightarrow> VecIter idx
      | None \<Rightarrow> StashIter (stash_find (stash m) k))"

definition cuckoo_count :: "('k, 'v) cuckoo_map \<Rightarrow> 'k \<Rightarrow> bool" where
  "cuckoo_count m k =
     (case List.find (\<lambda>idx. fst (data m ! idx) = k) (candidate_slots m k) of
        Some idx \<Rightarrow> True
      | None \<Rightarrow> k \<in> set (map fst (stash m)))"

text \<open>
  \<open>do_insert\<close>.  \<open>insert_walk c m v insertpos\<close> is the loop with \<open>c\<close> iterations left
  (100 at the start), \<open>v\<close> the value in hand and \<open>insertpos\<close> the tracked position, with
  \<open>None\<close> for \<open>(index_type)(-1)\<close>.  The iterator returned on success is
  \<open>data_begin() + insertpos\<close>, which for \<open>insertpos = -1\<close> is the position \<open>npos\<close>.
\<close>

definition stash_insert :: "('k \<times> 'v) list \<Rightarrow> 'k \<times> 'v \<Rightarrow> ('k \<times> 'v) list" where
  "stash_insert s v = (if fst v \<in> set (map fst s) then s else s @ [v])"

definition npos :: nat where
  "npos = 2 ^ 64 - 1"

definition vec_iterator :: "nat option \<Rightarrow> 'k iterator" where
  "vec_iterator insertpos = (case insertpos of None \<Rightarrow> VecIter npos | Some p \<Rightarrow> VecIter p)"

fun insert_walk ::
  "nat \<Rightarrow> ('k, 'v) cuckoo_map \<Rightarrow> 'k \<times> 'v \<Rightarrow> nat option \<Rightarrow> 'k iterator \<times> ('k, 'v) cuckoo_map" where
  "insert_walk 0 m v insertpos =
     (let m' = m\<lparr>stash := stash_insert (stash m) v\<rparr>
      in case insertpos of
           None \<Rightarrow> (StashIter (Some (fst v)), m')
         | Some p \<Rightarrow> (VecIter p, m'))"
| "insert_walk (Suc c) m v insertpos =
     (let hash_of_k = hashfun m (fst v);
          free = List.find (\<lambda>idx. fst (data m ! idx) = illegalkey m)
                   (map (compute_hash (datalen m) hash_of_k) [0..<CuckooK]);
          found = (free \<noteq> None);
          m1 = (if found then m else m\<lparr>drng := snd (kranddist m (drng m))\<rparr>);
          idx = (case free of
                   Some i \<Rightarrow> i
                 | None \<Rightarrow> compute_hash (datalen m) hash_of_k
                             (fst (kranddist m (drng m)) mod CuckooK));
          insertpos' = (case insertpos of
                          None \<Rightarrow> Some idx
                        | Some p \<Rightarrow> if p = idx then None else Some p)
      in if found \<or> fst (data m1 ! idx) = illegalkey m1
         then (vec_iterator insertpos', m1\<lparr>data := (data m1)[idx := v]\<rparr>)
         else insert_walk c (m1\<lparr>data := (data m1)[idx := v]\<rparr>) (data m1 ! idx) insertpos')"

text \<open>
  \<open>reserve(datalen * 1.5)\<close> converts the product to \<open>size_t\<close>, which is
  \<open>datalen * 3 div 2\<close>.  \<open>rehash_data n m i\<close> is the loop of \<open>rehash\<close> over the array from
  index \<open>i\<close>; it reads \<open>datalen\<close> anew in every iteration, as the source does.
  \<open>rehash_stash\<close> is its loop over the swapped-out stash.
\<close>

function (sequential) do_insert ::
    "nat \<Rightarrow> ('k, 'v) cuckoo_map \<Rightarrow> 'k \<times> 'v \<Rightarrow> ('k iterator \<times> ('k, 'v) cuckoo_map) option"
  and reserve :: "nat \<Rightarrow> ('k, 'v) cuckoo_map \<Rightarrow> nat \<Rightarrow> ('k, 'v) cuckoo_map option"
  and rehash :: "nat \<Rightarrow> ('k, 'v) cuckoo_map \<Rightarrow> ('k, 'v) cuckoo_map option"
  and rehash_data :: "nat \<Rightarrow> ('k, 'v) cuckoo_map \<Rightarrow> nat \<Rightarrow> ('k, 'v) cuckoo_map option"
  and rehash_stash ::
    "nat \<Rightarrow> ('k, 'v) cuckoo_map \<Rightarrow> ('k \<times> 'v) list \<Rightarrow> ('k, 'v) cuckoo_map option"
  and cuckoo_insert ::
    "nat \<Rightarrow> ('k, 'v) cuckoo_map \<Rightarrow> 'k \<times> 'v
       \<Rightarrow> ('k iterator \<times> bool \<times> ('k, 'v) cuckoo_map) option"
where
  "do_insert n m v =
     (case (if length (stash m) > maxstash m then reserve n m (datalen m * 3 div 2) else Some m) of
        None \<Rightarrow> None
      | Some m1 \<Rightarrow> Some (insert_walk 100 (m1\<lparr>numel := numel m1 + 1\<rparr>) v None))"
| "reserve 0 m newlen = None"
| "reserve (Suc n) m newlen =
     rehash n (m\<lparr>data := take newlen (data m)
                          @ replicate (newlen - datalen m) (illegalkey m, mapped_default m),
                  datalen := newlen\<rparr>)"
| "rehash n m =
     (let stmp = stash m;
          m1 = m\<lparr>stash := [], numel := numel m - of_nat (length stmp)\<rparr>
      in case rehash_data n m1 0 of
           None \<Rightarrow> None
         | Some m2 \<Rightarrow> rehash_stash n m2 stmp)"
| "rehash_data 0 m i = (if i < datalen m then None else Some m)"
| "rehash_data (Suc n) m i =
     (if i < datalen m then
        (if fst (data m ! i) \<noteq> illegalkey m \<and> \<not> cuckoo_count m (fst (data m ! i)) then
           (let v = data m ! i;
                m1 = m\<lparr>data := (data m)[i := (illegalkey m, mapped_default m)],
                       numel := numel m - 1\<rparr>
            in case cuckoo_insert n m1 v of
                 None \<Rightarrow> None
               | Some (it, b, m2) \<Rightarrow> rehash_data n m2 (i + 1))
         else rehash_data n m (i + 1))
      else Some m)"
| "rehash_stash n m [] = Some m"
| "rehash_stash n m (v # vs) =
     (case cuckoo_insert n m v of
        None \<Rightarrow> None
      | Some (it, b, m1) \<Rightarrow> rehash_stash n m1 vs)"
| "cuckoo_insert n m v =
     (let i = cuckoo_find m (fst v)
      in if i \<noteq> cuckoo_end m then Some (i, False, m)
         else case do_insert n m v of
                None \<Rightarrow> None
              | Some (it, m1) \<Rightarrow> Some (it, True, m1))"
  by pat_completeness auto
termination
  by (relation "measures
       [\<lambda>x. case x of
            Inl (Inl (n, m, v)) \<Rightarrow> 6 * n + 1
          | Inl (Inr (Inl (n, m, l))) \<Rightarrow> 6 * n
          | Inl (Inr (Inr (n, m))) \<Rightarrow> 6 * n + 5
          | Inr (Inl (n, m, i)) \<Rightarrow> 6 * n + 4
          | Inr (Inr (Inl (n, m, vs))) \<Rightarrow> 6 * n + 3
          | Inr (Inr (Inr (n, m, v))) \<Rightarrow> 6 * n + 2,
        \<lambda>x. case x of
            Inr (Inr (Inl (n, m, vs))) \<Rightarrow> length vs
          | _ \<Rightarrow> 0]") auto

text \<open>
  \<open>size\<close>, \<open>operator[]\<close>, \<open>erase\<close>, \<open>clear\<close> and the constructor.  \<open>operator[]\<close> returns
  the reference \<open>iter->second\<close>: the model returns the iterator, \<open>iter_deref\<close> reads through
  it and \<open>ref_write\<close> assigns through it.  The constructor takes the seed of \<open>drng\<close>
  (\<open>time(NULL)\<close> in the source) as a parameter.
\<close>

definition cuckoo_size :: "('k, 'v) cuckoo_map \<Rightarrow> 64 word" where
  "cuckoo_size m = numel m"

definition cuckoo_index ::
  "nat \<Rightarrow> ('k, 'v) cuckoo_map \<Rightarrow> 'k \<Rightarrow> ('k iterator \<times> ('k, 'v) cuckoo_map) option" where
  "cuckoo_index n m i =
     (let iter = cuckoo_find m i;
          tmp = (i, mapped_default m)
      in if iter = cuckoo_end m then do_insert n m tmp else Some (iter, m))"

definition iter_deref :: "('k, 'v) cuckoo_map \<Rightarrow> 'k iterator \<Rightarrow> ('k \<times> 'v) option" where
  "iter_deref m it =
     (case it of
        VecIter i \<Rightarrow> if i < datalen m then Some (data m ! i) else None
      | StashIter None \<Rightarrow> None
      | StashIter (Some k) \<Rightarrow> List.find (\<lambda>e. fst e = k) (stash m))"

definition ref_write :: "('k, 'v) cuckoo_map \<Rightarrow> 'k iterator \<Rightarrow> 'v \<Rightarrow> ('k, 'v) cuckoo_map" where
  "ref_write m it x =
     (case it of
        VecIter i \<Rightarrow> m\<lparr>data := (data m)[i := (fst (data m ! i), x)]\<rparr>
      | StashIter None \<Rightarrow> m
      | StashIter (Some k) \<Rightarrow>
          m\<lparr>stash := map (\<lambda>e. if fst e = k then (k, x) else e) (stash m)\<rparr>)"

definition cuckoo_erase_iter :: "('k, 'v) cuckoo_map \<Rightarrow> 'k iterator \<Rightarrow> ('k, 'v) cuckoo_map" where
  "cuckoo_erase_iter m iter =
     (case iter of
        VecIter i \<Rightarrow>
          if fst (data m ! i) \<noteq> illegalkey m
          then m\<lparr>data := (data m)[i := (illegalkey m, mapped_default m)], numel := numel m - 1\<rparr>
          else m
      | StashIter None \<Rightarrow> m
      | StashIter (Some k) \<Rightarrow>
          m\<lparr>numel := numel m - 1, stash := filter (\<lambda>e. fst e \<noteq> k) (stash m)\<rparr>)"

definition cuckoo_erase :: "('k, 'v) cuckoo_map \<Rightarrow> 'k \<Rightarrow> ('k, 'v) cuckoo_map" where
  "cuckoo_erase m k =
     (let iter = cuckoo_find m k
      in if iter \<noteq> cuckoo_end m then cuckoo_erase_iter m iter else m)"

definition destroy_all :: "('k, 'v) cuckoo_map \<Rightarrow> ('k, 'v) cuckoo_map" where
  "destroy_all m = m\<lparr>stash := [], data := [], datalen := 0, numel := 0\<rparr>"

definition cuckoo_clear :: "nat \<Rightarrow> ('k, 'v) cuckoo_map \<Rightarrow> ('k, 'v) cuckoo_map option" where
  "cuckoo_clear n m = reserve n (destroy_all m) 128"

definition cuckoo_map_new ::
  "nat \<Rightarrow> 'k \<Rightarrow> nat \<Rightarrow> ('k \<Rightarrow> 64 word) \<Rightarrow> nat \<Rightarrow> (nat \<Rightarrow> nat \<times> nat) \<Rightarrow> 'v
     \<Rightarrow> ('k, 'v) cuckoo_map option" where
  "cuckoo_map_new n ik stashsize h seed kr dflt =
     reserve n \<lparr>illegalkey = ik, numel = 0, maxstash = stashsize, data = [], datalen = 0,
                stash = [], drng = seed, kranddist = kr, hashfun = h, mapped_default = dflt\<rparr> 128"

text \<open>
  \<open>begin()\<close> and \<open>operator++\<close>.  \<open>iterate n m it\<close> collects what a loop
  \<open>for (; it != end(); ++it)\<close> visits, with at most \<open>n\<close> increments.
\<close>

function skip_illegal :: "('k, 'v) cuckoo_map \<Rightarrow> nat \<Rightarrow> nat" where
  "skip_illegal m i =
     (if i < datalen m \<and> fst (data m ! i) = illegalkey m then skip_illegal m (i + 1) else i)"
  by pat_completeness auto
termination
  by (relation "measure (\<lambda>(m, i). datalen m - i)") auto

definition stash_begin :: "('k \<times> 'v) list \<Rightarrow> 'k option" where
  "stash_begin s = (case s of [] \<Rightarrow> None | e # rest \<Rightarrow> Some (fst e))"

definition stash_next :: "('k \<times> 'v) list \<Rightarrow> 'k \<Rightarrow> 'k option" where
  "stash_next s k =
     (case dropWhile (\<lambda>e. fst e \<noteq> k) s of [] \<Rightarrow> None | e # rest \<Rightarrow> stash_begin rest)"

definition cuckoo_begin :: "('k, 'v) cuckoo_map \<Rightarrow> 'k iterator" where
  "cuckoo_begin m =
     (let i = skip_illegal m 0
      in if i = datalen m then StashIter (stash_begin (stash m)) else VecIter i)"

definition iter_next :: "('k, 'v) cuckoo_map \<Rightarrow> 'k iterator \<Rightarrow> 'k iterator" where
  "iter_next m it =
     (case it of
        VecIter i \<Rightarrow>
          (let j = skip_illegal m (i + 1)
           in if j = datalen m then StashIter (stash_begin (stash m)) else VecIter j)
      | StashIter None \<Rightarrow> StashIter None
      | StashIter (Some k) \<Rightarrow> StashIter (stash_next (stash m) k))"

fun iterate :: "nat \<Rightarrow> ('k, 'v) cuckoo_map \<Rightarrow> 'k iterator \<Rightarrow> ('k \<times> 'v) list option" where
  "iterate 0 m it = (if it = cuckoo_end m then Some [] else None)"
| "iterate (Suc n) m it =
     (if it = cuckoo_end m then Some []
      else case iter_deref m it of
             None \<Rightarrow> None
           | Some e \<Rightarrow> map_option (Cons e) (iterate n m (iter_next m it)))"

text \<open>A sequence of \<open>insert\<close> calls.\<close>

fun insert_all ::
  "nat \<Rightarrow> ('k, 'v) cuckoo_map \<Rightarrow> ('k \<times> 'v) list \<Rightarrow> ('k, 'v) cuckoo_map option" where
  "insert_all n m [] = Some m"
| "insert_all n m (v # vs) =
     (case cuckoo_insert n m v of
        None \<Rightarrow> None
      | Some (it, b, m1) \<Rightarrow> insert_all n m1 vs)"

subsection \<open>Abstraction and invariants\<close>

text \<open>
  The content of a map is the multiset of \<open>cm_entries\<close>: the occupied slots and the stash.
  \<open>cm_inv\<close> is the representation invariant; \<open>misplaced\<close> are the occupied slots that
  \<open>find\<close> does not probe for their key (they appear while \<open>rehash\<close> runs after a
  resize); \<open>cm_wf\<close> holds between the calls of the interface.
\<close>

definition live :: "('k, 'v) cuckoo_map \<Rightarrow> ('k \<times> 'v) list" where
  "live m = filter (\<lambda>e. fst e \<noteq> illegalkey m) (data m)"

definition cm_entries :: "('k, 'v) cuckoo_map \<Rightarrow> ('k \<times> 'v) list" where
  "cm_entries m = live m @ stash m"

definition cm_keys :: "('k, 'v) cuckoo_map \<Rightarrow> 'k list" where
  "cm_keys m = map fst (cm_entries m)"

definition cm_inv0 :: "('k, 'v) cuckoo_map \<Rightarrow> bool" where
  "cm_inv0 m \<longleftrightarrow>
     datalen m = length (data m) \<and> distinct (cm_keys m) \<and>
     illegalkey m \<notin> set (map fst (stash m)) \<and> numel m = of_nat (length (cm_entries m))"

definition cm_inv :: "('k, 'v) cuckoo_map \<Rightarrow> bool" where
  "cm_inv m \<longleftrightarrow> cm_inv0 m \<and> 0 < datalen m"

definition misplaced :: "('k, 'v) cuckoo_map \<Rightarrow> nat set" where
  "misplaced m =
     {i. i < length (data m) \<and> fst (data m ! i) \<noteq> illegalkey m \<and>
         i \<notin> set (candidate_slots m (fst (data m ! i)))}"

definition same_params :: "('k, 'v) cuckoo_map \<Rightarrow> ('k, 'v) cuckoo_map \<Rightarrow> bool" where
  "same_params m m' \<longleftrightarrow>
     illegalkey m' = illegalkey m \<and> maxstash m' = maxstash m \<and> hashfun m' = hashfun m \<and>
     kranddist m' = kranddist m \<and> mapped_default m' = mapped_default m"

subsection \<open>Specifications of the internal procedures\<close>

text \<open>
  \<open>track\<close> is the update of \<open>insertpos\<close> in one iteration of the walk; \<open>tracked m v ip e0\<close>
  says where the entry \<open>e0\<close> being inserted is: in hand (\<open>ip = None\<close>) or in slot \<open>p\<close>.
  \<open>walk_post\<close>, \<open>ins_post\<close> and \<open>re_post\<close> are the postconditions of the walk, of
  \<open>do_insert\<close>/\<open>insert\<close> and of \<open>reserve\<close>/\<open>rehash\<close>.
\<close>

definition track :: "nat option \<Rightarrow> nat \<Rightarrow> nat option" where
  "track insertpos idx =
     (case insertpos of None \<Rightarrow> Some idx | Some p \<Rightarrow> if p = idx then None else Some p)"

definition tracked :: "('k, 'v) cuckoo_map \<Rightarrow> 'k \<times> 'v \<Rightarrow> nat option \<Rightarrow> 'k \<times> 'v \<Rightarrow> bool" where
  "tracked m v ip e0 =
     (case ip of
        None \<Rightarrow> v = e0
      | Some p \<Rightarrow> p < length (data m) \<and> data m ! p = e0 \<and> fst e0 \<noteq> illegalkey m)"

definition walk_post ::
  "('k, 'v) cuckoo_map \<Rightarrow> 'k \<times> 'v \<Rightarrow> 'k \<times> 'v \<Rightarrow> 'k iterator \<Rightarrow> ('k, 'v) cuckoo_map \<Rightarrow> bool" where
  "walk_post m v e0 it m' \<longleftrightarrow>
     mset (cm_entries m') = add_mset v (mset (cm_entries m)) \<and>
     datalen m' = datalen m \<and> length (data m') = length (data m) \<and>
     same_params m m' \<and> numel m' = numel m \<and>
     illegalkey m \<notin> set (map fst (stash m')) \<and>
     misplaced m' \<subseteq> misplaced m \<and>
     iter_deref m' it = Some e0"

definition fresh :: "('k, 'v) cuckoo_map \<Rightarrow> 'k \<times> 'v \<Rightarrow> bool" where
  "fresh m v \<longleftrightarrow> fst v \<noteq> illegalkey m \<and> fst v \<notin> set (cm_keys m)"

definition ins_post ::
  "('k, 'v) cuckoo_map \<Rightarrow> 'k \<times> 'v \<Rightarrow> 'k iterator \<Rightarrow> ('k, 'v) cuckoo_map \<Rightarrow> bool" where
  "ins_post m v it m' \<longleftrightarrow>
     cm_inv m' \<and> same_params m m' \<and>
     mset (cm_entries m') = add_mset v (mset (cm_entries m)) \<and>
     misplaced m' \<subseteq> misplaced m \<and> iter_deref m' it = Some v \<and> datalen m \<le> datalen m' \<and>
     (maxstash m < length (stash m) \<longrightarrow> datalen m * 3 div 2 \<le> datalen m')"

definition re_post :: "('k, 'v) cuckoo_map \<Rightarrow> ('k, 'v) cuckoo_map \<Rightarrow> bool" where
  "re_post m m' \<longleftrightarrow>
     cm_inv m' \<and> same_params m m' \<and> mset (cm_entries m') = mset (cm_entries m) \<and>
     misplaced m' = {} \<and> datalen m \<le> datalen m'"

definition cm_wf :: "('k, 'v) cuckoo_map \<Rightarrow> bool" where
  "cm_wf m \<longleftrightarrow> cm_inv m \<and> misplaced m = {}"

text \<open>The state that the constructor returns.\<close>

definition empty_map ::
  "'k \<Rightarrow> nat \<Rightarrow> ('k \<Rightarrow> 64 word) \<Rightarrow> nat \<Rightarrow> (nat \<Rightarrow> nat \<times> nat) \<Rightarrow> 'v \<Rightarrow> ('k, 'v) cuckoo_map" where
  "empty_map ik stashsize h seed kr dflt =
     \<lparr>illegalkey = ik, numel = 0, maxstash = stashsize, data = replicate 128 (ik, dflt),
      datalen = 128, stash = [], drng = seed, kranddist = kr, hashfun = h,
      mapped_default = dflt\<rparr>"

text \<open>
  The states of a map that is constructed and then used through \<open>operator[]\<close> (with or
  without an assignment through the reference), \<open>insert\<close>, \<open>erase\<close> and \<open>clear\<close>, where
  the keys passed to \<open>operator[]\<close> and \<open>insert\<close> differ from the sentinel.
\<close>

inductive reachable :: "('k, 'v) cuckoo_map \<Rightarrow> bool" where
  new: "cuckoo_map_new n ik stashsize h seed kr dflt = Some m \<Longrightarrow> reachable m"
| index: "reachable m \<Longrightarrow> k \<noteq> illegalkey m \<Longrightarrow> cuckoo_index n m k = Some (it, m') \<Longrightarrow>
            reachable m'"
| index_write: "reachable m \<Longrightarrow> k \<noteq> illegalkey m \<Longrightarrow> cuckoo_index n m k = Some (it, m') \<Longrightarrow>
            reachable (ref_write m' it x)"
| insert: "reachable m \<Longrightarrow> fst v \<noteq> illegalkey m \<Longrightarrow> cuckoo_insert n m v = Some (it, b, m') \<Longrightarrow>
            reachable m'"
| erase: "reachable m \<Longrightarrow> reachable (cuckoo_erase m k)"
| clear: "reachable m \<Longrightarrow> cuckoo_clear n m = Some m' \<Longrightarrow> reachable m'"

text \<open>\<open>live_from m i\<close> are the occupied slots from index \<open>i\<close> on; \<open>iter_at m i\<close> is the
  iterator that \<open>begin()\<close> and \<open>operator++\<close> build after skipping from \<open>i\<close>.\<close>

declare skip_illegal.simps [simp del]

definition live_from :: "('k, 'v) cuckoo_map \<Rightarrow> nat \<Rightarrow> ('k \<times> 'v) list" where
  "live_from m i = filter (\<lambda>e. fst e \<noteq> illegalkey m) (drop i (data m))"

definition iter_at :: "('k, 'v) cuckoo_map \<Rightarrow> nat \<Rightarrow> 'k iterator" where
  "iter_at m i =
     (let j = skip_illegal m i
      in if j = datalen m then StashIter (stash_begin (stash m)) else VecIter j)"

text \<open>A hash function that sends every key to the same three slots.\<close>

definition zero_hash :: "nat \<Rightarrow> 64 word" where
  "zero_hash k = 0"
section \<open>Properties of the edge decision oracle and of the front ends\<close>

subsection \<open>The tied-top set\<close>

lemma top_positions_nonempty: "proc_score \<noteq> [] \<Longrightarrow> top_positions proc_score \<noteq> []"
proof -
  assume ne: "proc_score \<noteq> []"
  then have "Max (set proc_score) \<in> set proc_score" by (intro Max_in) auto
  then obtain j where j: "j < length proc_score" "proc_score ! j = Max (set proc_score)"
    by (auto simp: in_set_conv_nth)
  then have "j \<in> set (top_positions proc_score)"
    by (simp add: top_positions_def Let_def)
  then show ?thesis by auto
qed

lemma top_positions_bound: "j \<in> set (top_positions proc_score) \<Longrightarrow> j < length proc_score"
  by (simp add: top_positions_def Let_def)

lemma pick_best_ok:
  assumes "top_procs \<noteq> []" "\<forall>p \<in> set top_procs. p < numprocs"
  shows "\<exists>p. pick_best hash_edge source target top_procs numprocs = Inr p \<and> p \<in> set top_procs \<and> p < numprocs"
proof -
  let ?p = "top_procs ! (hash_edge (edge_pair source target) mod length top_procs)"
  have "?p \<in> set top_procs" using assms(1) by simp
  then show ?thesis using assms by (simp add: pick_best_def Let_def)
qed

lemma pick_best_Inr:
  "pick_best hash_edge source target top_procs numprocs = Inr p \<Longrightarrow> p < numprocs \<and> p \<in> set top_procs"
  by (auto simp: pick_best_def Let_def split: if_splits)

lemma edge_pair_commute: "edge_pair u v = edge_pair v u"
  by (simp add: edge_pair_def min.commute max.commute)

lemma pick_best_commute:
  "pick_best hash_edge u v top_procs numprocs = pick_best hash_edge v u top_procs numprocs"
  by (simp add: pick_best_def edge_pair_commute [of u v])

subsection \<open>What a decision returns\<close>


lemma greedy_Inr:
  assumes "edge_to_proc_greedy hash_edge source target src dst bits proc_num_edges usehash userecent
             = Inr (p, bits', loads')"
  shows "p < length proc_num_edges \<and> bits' = place_replica src dst userecent p bits \<and>
         loads' = proc_num_edges[p := proc_num_edges ! p + 1]"
  using assms
  by (auto simp: edge_to_proc_greedy_def Let_def split: if_splits sum.splits dest: pick_best_Inr)

lemma hdrf_returns:
  assumes "proc_num_edges \<noteq> []"
  shows "\<exists>p. p < length proc_num_edges \<and>
           edge_to_proc_hdrf hash_edge source target src dst bits src_true dst_true degs
               proc_num_edges usehash userecent
             = Inr (p, place_replica src dst userecent p bits,
                    (degs(src_true := degs src_true + 1))
                      (dst_true := (degs(src_true := degs src_true + 1)) dst_true + 1),
                    proc_num_edges[p := proc_num_edges ! p + 1])"
proof -
  let ?sc = "map (hdrf_score source target (bits src) (bits dst) (degs src_true) (degs dst_true)
                    proc_num_edges usehash) [0..<length proc_num_edges]"
  have ne: "top_positions ?sc \<noteq> []" using assms by (intro top_positions_nonempty) simp
  have bd: "\<forall>p \<in> set (top_positions ?sc). p < length proc_num_edges"
    using top_positions_bound [of _ ?sc] by auto
  from pick_best_ok [OF ne bd, of hash_edge source target]
  obtain p where "pick_best hash_edge source target (top_positions ?sc) (length proc_num_edges) = Inr p"
    "p < length proc_num_edges" by blast
  then show ?thesis using assms by (auto simp: edge_to_proc_hdrf_def Let_def)
qed

lemma hdrf_Inr:
  assumes "edge_to_proc_hdrf hash_edge source target src dst bits src_true dst_true degs
               proc_num_edges usehash userecent = Inr (p, bits', degs', loads')"
  shows "p < length proc_num_edges \<and> bits' = place_replica src dst userecent p bits \<and>
         degs' = (degs(src_true := degs src_true + 1))
                      (dst_true := (degs(src_true := degs src_true + 1)) dst_true + 1) \<and>
         loads' = proc_num_edges[p := proc_num_edges ! p + 1]"
  using assms
  by (auto simp: edge_to_proc_hdrf_def Let_def split: if_splits sum.splits dest: pick_best_Inr)

lemma greedy_candidates_Inr:
  assumes "edge_to_proc_greedy_candidates hash_edge source target src dst bits candidates
               proc_num_edges usehash userecent = Inr (p, bits', loads')"
  shows "p < length proc_num_edges \<and> bits' = place_replica src dst userecent p bits \<and>
         loads' = proc_num_edges[p := proc_num_edges ! p + 1]"
  using assms unfolding edge_to_proc_greedy_candidates_def Let_def
  by (auto split: if_splits sum.splits dest: pick_best_Inr)

subsection \<open>Load vector\<close>

lemma sum_list_bump: "p < length xs \<Longrightarrow> sum_list (xs[p := Suc (xs ! p)]) = Suc (sum_list xs)"
  by (simp add: sum_list_update)



lemma upt4: "[0..<4] = [0,1,2,3]"
  by (simp add: upt_rec)

lemma bal_zero4: "bal [0,0,0,0] i = 0"
  by (simp add: bal_def)

lemma hdrf_score_zero4: "hdrf_score 10 7 {} {} 0 0 [0,0,0,0] False i = 0"
  by (simp add: hdrf_score_def degree_presence_def bal_zero4 Let_def)

lemma top_positions_zero4: "top_positions [0,0,0,0] = [0,1,2,3]"
  by (simp add: top_positions_def upt4)

text \<open>
  Claim C1.  The HDRF scorer with four machines, load vector \<open>[0,0,0,0]\<close>, empty replica
  bit sets, true-degree counters 0 and both policy flags disabled, deciding the edge
  \<open>(10, 7)\<close>: every balance term is 0 and every score is 0, all four machines are in the
  tied-top set, the returned machine is \<open>hash_edge (7, 10) mod 4\<close> (the hash of the
  canonical pair), its load becomes 1 while the other loads stay 0, both replica bit
  sets become the singleton of the returned machine, and both true-degree counters
  become 1.  The statement holds for every hash function.
\<close>

theorem hdrf_scenario_10_7:
  "map (bal [0,0,0,0]) [0..<4] = [0,0,0,0] \<and>
   map (hdrf_score 10 7 {} {} 0 0 [0,0,0,0] False) [0..<4] = [0,0,0,0] \<and>
   top_positions (map (hdrf_score 10 7 {} {} 0 0 [0,0,0,0] False) [0..<4]) = [0,1,2,3] \<and>
   edge_pair 10 7 = (7, 10) \<and>
   (let p = hash_edge (7, 10) mod 4
    in p < 4 \<and>
       edge_to_proc_hdrf hash_edge 10 7 (10::nat) 7 (\<lambda>_. {}) (10::nat) 7 (\<lambda>_. 0) [0,0,0,0] False False
         = Inr (p, (\<lambda>_. {})(10 := {p}, 7 := {p}), (\<lambda>_. 0)(10 := 1, 7 := 1), [0,0,0,0][p := 1]))"
proof -
  have sc: "map (hdrf_score 10 7 {} {} 0 0 [0,0,0,0] False) [0..<4] = [0,0,0,0]"
    by (simp add: upt4 hdrf_score_zero4)
  have ep: "edge_pair 10 7 = (7, 10)" by (simp add: edge_pair_def)
  have pb: "pick_best hash_edge 10 7 [0,1,2,3] 4 = Inr (hash_edge (7, 10) mod 4)"
  proof -
    have "hash_edge (7, 10) mod 4 < 4" by simp
    then have "[0,1,2,3] ! (hash_edge (7, 10) mod 4) = hash_edge (7, 10) mod 4"
      by (metis upt4 nth_upt add_0)
    then show ?thesis by (simp add: pick_best_def ep)
  qed
  have len: "length [0,0,0,0::nat] = 4" by simp
  have ne: "([0,0,0,0::nat] = []) = False" by simp
  have nth0: "[0,0,0,0::nat] ! (hash_edge (7, 10) mod 4) = 0"
    by (simp add: nth_Cons')
  have "edge_to_proc_hdrf hash_edge 10 7 (10::nat) 7 (\<lambda>_. {}) (10::nat) 7 (\<lambda>_. 0) [0,0,0,0] False False
         = Inr (hash_edge (7, 10) mod 4,
                (\<lambda>_. {})(10 := {hash_edge (7, 10) mod 4}, 7 := {hash_edge (7, 10) mod 4}),
                (\<lambda>_. 0)(10 := 1, 7 := 1), [0,0,0,0][hash_edge (7, 10) mod 4 := 1])"
    apply (simp only: edge_to_proc_hdrf_def Let_def len ne if_False sc top_positions_zero4 pb
        sum.case prod.case nth0)
    apply (simp add: place_replica_def)
    done
  then show ?thesis
    using sc ep by (simp add: Let_def top_positions_zero4 upt4 bal_zero4)
qed

subsection \<open>Front ends\<close>

lemma hdrf_add_edge_returns:
  assumes "hdrf_proc_num_edges st \<noteq> []"
  shows "\<exists>p st'. hdrf_add_edge hash_edge st source target = Inr (p, st') \<and>
           p < length (hdrf_proc_num_edges st) \<and>
           hdrf_proc_num_edges st' = (hdrf_proc_num_edges st)[p := hdrf_proc_num_edges st ! p + 1]"
proof -
  let ?d2 = "table_index {} (table_index {} (table_index {} (table_index {} (hdrf_dht st) source) target) source) target"
  let ?g2 = "table_index 0 (table_index 0 (table_index 0 (table_index 0 (hdrf_degree_dht st) source) target) source) target"
  from hdrf_returns [OF assms, of hash_edge source target source target "slot ?d2" source target
      "slot ?g2" "hdrf_usehash st" "hdrf_userecent st"]
  obtain p where "p < length (hdrf_proc_num_edges st)"
    and "edge_to_proc_hdrf hash_edge source target source target (slot ?d2) source target
           (slot ?g2) (hdrf_proc_num_edges st) (hdrf_usehash st) (hdrf_userecent st)
         = Inr (p, place_replica source target (hdrf_userecent st) p (slot ?d2),
                ((slot ?g2)(source := slot ?g2 source + 1))
                  (target := ((slot ?g2)(source := slot ?g2 source + 1)) target + 1),
                (hdrf_proc_num_edges st)[p := hdrf_proc_num_edges st ! p + 1])"
    by blast
  then show ?thesis by (simp add: hdrf_add_edge_def Let_def)
qed


lemma hdrf_add_edges_sum:
  assumes "hdrf_proc_num_edges st \<noteq> []"
  shows "\<exists>st'. hdrf_add_edges hash_edge st es = Inr st' \<and>
           length (hdrf_proc_num_edges st') = length (hdrf_proc_num_edges st) \<and>
           sum_list (hdrf_proc_num_edges st') = sum_list (hdrf_proc_num_edges st) + length es"
  using assms
proof (induction es arbitrary: st)
  case Nil
  then show ?case by simp
next
  case (Cons e es)
  obtain source target where e: "e = (source, target)" by (cases e)
  from hdrf_add_edge_returns [OF Cons.prems, of hash_edge source target]
  obtain p st1 where st1: "hdrf_add_edge hash_edge st source target = Inr (p, st1)"
    "p < length (hdrf_proc_num_edges st)"
    "hdrf_proc_num_edges st1 = (hdrf_proc_num_edges st)[p := hdrf_proc_num_edges st ! p + 1]"
    by blast
  then have ne1: "hdrf_proc_num_edges st1 \<noteq> []" using Cons.prems by simp
  from Cons.IH [OF ne1]
  obtain st' where st': "hdrf_add_edges hash_edge st1 es = Inr st'"
    "length (hdrf_proc_num_edges st') = length (hdrf_proc_num_edges st1)"
    "sum_list (hdrf_proc_num_edges st') = sum_list (hdrf_proc_num_edges st1) + length es"
    by blast
  have "sum_list (hdrf_proc_num_edges st1) = sum_list (hdrf_proc_num_edges st) + 1"
    using st1(2,3) by (simp add: sum_list_bump)
  then show ?case using st1 st' e by simp
qed




lemma sum_list_replicate0: "sum_list (replicate n (0::nat)) = 0"
  by (induction n) simp_all


subsection \<open>Greedy bonus\<close>

text \<open>
  Claim C5, as stated, fails: with \<open>usehash\<close> enabled, a machine that holds a replica of
  the source and is also \<open>source mod numprocs\<close> gets a source-side contribution of 1, not
  2, because the code adds \<open>(sd > 0)\<close>, not \<open>sd\<close>.  Two machines, source 0 with a replica
  on machine 0, target 1 without replicas: the code's score of machine 0 is the balance
  plus 1, the spec's formula gives the balance plus 2.
\<close>

theorem greedy_hash_bonus_clamped:
  "(0::nat) \<in> {0} \<and> (0::nat) mod length [0::nat, 0] = 0 \<and>
   greedy_score 0 1 {0} {} [0, 0] True 0 = bal [0, 0] 0 + 1 \<and>
   greedy_score_spec 0 1 {0} {} [0, 0] True 0 = bal [0, 0] 0 + 2 \<and>
   greedy_score 0 1 {0} {} [0, 0] True 0 \<noteq> greedy_score_spec 0 1 {0} {} [0, 0] True 0"
  by (simp add: greedy_score_def greedy_score_spec_def degree_presence_def Let_def)

text \<open>
  Claim C5, amended.  The greedy score of machine \<open>i\<close> is the balance term plus, for the
  source, 1 if the source has a replica on \<open>i\<close> or the hash fallback is enabled and
  \<open>source mod numprocs = i\<close> (0 otherwise), plus the same for the target: each side
  contributes at most 1, so the hash fallback adds something only where the replica bit
  is not set.  With the hash fallback disabled the score is the balance plus the two
  replica bits.
\<close>

theorem greedy_score_bonus:
  "greedy_score source target src_degree dst_degree proc_num_edges usehash i =
     bal proc_num_edges i
     + of_bool (i \<in> src_degree \<or> (usehash \<and> source mod length proc_num_edges = i))
     + of_bool (i \<in> dst_degree \<or> (usehash \<and> target mod length proc_num_edges = i)) \<and>
   greedy_score source target src_degree dst_degree proc_num_edges False i =
     bal proc_num_edges i + of_bool (i \<in> src_degree) + of_bool (i \<in> dst_degree)"
  by (simp add: greedy_score_def degree_presence_def Let_def)

subsection \<open>Replica bits\<close>

lemma place_replica_props:
  "p \<in> place_replica src dst ur p bits src \<and> p \<in> place_replica src dst ur p bits dst \<and>
   (ur \<longrightarrow> place_replica src dst ur p bits src = {p} \<and> place_replica src dst ur p bits dst = {p}) \<and>
   (\<not> ur \<longrightarrow> place_replica src dst ur p bits src = insert p (bits src) \<and>
              place_replica src dst ur p bits dst = insert p (bits dst))"
  by (auto simp: place_replica_def Let_def)

lemma after_place:
  assumes "p < length loads \<and> bits' = place_replica src dst ur p bits \<and>
           loads' = loads[p := loads ! p + 1]"
  shows "p \<in> bits' src \<and> p \<in> bits' dst \<and>
      (ur \<longrightarrow> bits' src = {p} \<and> bits' dst = {p}) \<and>
      (\<not> ur \<longrightarrow> bits' src = insert p (bits src) \<and> bits' dst = insert p (bits dst)) \<and>
      p < length loads \<and> loads' ! p = loads ! p + 1"
proof -
  have "loads' ! p = loads ! p + 1" using assms by simp
  moreover have "bits' = place_replica src dst ur p bits" using assms by simp
  ultimately show ?thesis
    using place_replica_props [of p src dst ur bits] assms by blast
qed

text \<open>
  Claim C7.  After a greedy (either overload) or HDRF decision that returns machine \<open>p\<close>:
  bit \<open>p\<close> is set in the source's and in the target's replica bit set; with \<open>userecent\<close>
  both sets are exactly \<open>{p}\<close> (the clear comes before the set), without it each set is the
  old one with \<open>p\<close> added; and the load of \<open>p\<close> is one more than before.  The two
  references may be the same object.
\<close>

theorem replica_bits_after_decision:
  "(edge_to_proc_greedy hash_edge source target src dst bits loads uh ur = Inr (p, bits', loads') \<longrightarrow>
      p \<in> bits' src \<and> p \<in> bits' dst \<and>
      (ur \<longrightarrow> bits' src = {p} \<and> bits' dst = {p}) \<and>
      (\<not> ur \<longrightarrow> bits' src = insert p (bits src) \<and> bits' dst = insert p (bits dst)) \<and>
      p < length loads \<and> loads' ! p = loads ! p + 1) \<and>
   (edge_to_proc_greedy_candidates hash_edge source target src dst bits candidates loads uh ur
        = Inr (p, bits', loads') \<longrightarrow>
      p \<in> bits' src \<and> p \<in> bits' dst \<and>
      (ur \<longrightarrow> bits' src = {p} \<and> bits' dst = {p}) \<and>
      (\<not> ur \<longrightarrow> bits' src = insert p (bits src) \<and> bits' dst = insert p (bits dst)) \<and>
      p < length loads \<and> loads' ! p = loads ! p + 1) \<and>
   (edge_to_proc_hdrf hash_edge source target src dst bits src_true dst_true degs loads uh ur
        = Inr (p, bits', degs', loads') \<longrightarrow>
      p \<in> bits' src \<and> p \<in> bits' dst \<and>
      (ur \<longrightarrow> bits' src = {p} \<and> bits' dst = {p}) \<and>
      (\<not> ur \<longrightarrow> bits' src = insert p (bits src) \<and> bits' dst = insert p (bits dst)) \<and>
      p < length loads \<and> loads' ! p = loads ! p + 1)"
proof -
  have a: "edge_to_proc_greedy hash_edge source target src dst bits loads uh ur = Inr (p, bits', loads') \<longrightarrow>
      p \<in> bits' src \<and> p \<in> bits' dst \<and>
      (ur \<longrightarrow> bits' src = {p} \<and> bits' dst = {p}) \<and>
      (\<not> ur \<longrightarrow> bits' src = insert p (bits src) \<and> bits' dst = insert p (bits dst)) \<and>
      p < length loads \<and> loads' ! p = loads ! p + 1"
  proof
    assume "edge_to_proc_greedy hash_edge source target src dst bits loads uh ur = Inr (p, bits', loads')"
    from greedy_Inr [OF this]
    show "p \<in> bits' src \<and> p \<in> bits' dst \<and>
      (ur \<longrightarrow> bits' src = {p} \<and> bits' dst = {p}) \<and>
      (\<not> ur \<longrightarrow> bits' src = insert p (bits src) \<and> bits' dst = insert p (bits dst)) \<and>
      p < length loads \<and> loads' ! p = loads ! p + 1"
      by (rule after_place)
  qed
  have b: "edge_to_proc_greedy_candidates hash_edge source target src dst bits candidates loads uh ur
        = Inr (p, bits', loads') \<longrightarrow>
      p \<in> bits' src \<and> p \<in> bits' dst \<and>
      (ur \<longrightarrow> bits' src = {p} \<and> bits' dst = {p}) \<and>
      (\<not> ur \<longrightarrow> bits' src = insert p (bits src) \<and> bits' dst = insert p (bits dst)) \<and>
      p < length loads \<and> loads' ! p = loads ! p + 1"
  proof
    assume "edge_to_proc_greedy_candidates hash_edge source target src dst bits candidates loads uh ur
        = Inr (p, bits', loads')"
    from greedy_candidates_Inr [OF this]
    show "p \<in> bits' src \<and> p \<in> bits' dst \<and>
      (ur \<longrightarrow> bits' src = {p} \<and> bits' dst = {p}) \<and>
      (\<not> ur \<longrightarrow> bits' src = insert p (bits src) \<and> bits' dst = insert p (bits dst)) \<and>
      p < length loads \<and> loads' ! p = loads ! p + 1"
      by (rule after_place)
  qed
  have c: "edge_to_proc_hdrf hash_edge source target src dst bits src_true dst_true degs loads uh ur
        = Inr (p, bits', degs', loads') \<longrightarrow>
      p \<in> bits' src \<and> p \<in> bits' dst \<and>
      (ur \<longrightarrow> bits' src = {p} \<and> bits' dst = {p}) \<and>
      (\<not> ur \<longrightarrow> bits' src = insert p (bits src) \<and> bits' dst = insert p (bits dst)) \<and>
      p < length loads \<and> loads' ! p = loads ! p + 1"
  proof
    assume "edge_to_proc_hdrf hash_edge source target src dst bits src_true dst_true degs loads uh ur
        = Inr (p, bits', degs', loads')"
    from hdrf_Inr [OF this]
    have "p < length loads \<and> bits' = place_replica src dst ur p bits \<and>
           loads' = loads[p := loads ! p + 1]" by blast
    then show "p \<in> bits' src \<and> p \<in> bits' dst \<and>
      (ur \<longrightarrow> bits' src = {p} \<and> bits' dst = {p}) \<and>
      (\<not> ur \<longrightarrow> bits' src = insert p (bits src) \<and> bits' dst = insert p (bits dst)) \<and>
      p < length loads \<and> loads' ! p = loads ! p + 1"
      by (rule after_place)
  qed
  show ?thesis by (intro conjI a b c)
qed

lemma upt2: "[0..<2] = [0, 1]"
  by (simp add: upt_rec)

lemma bal00: "bal [0, 0] i = 0"
  by (simp add: bal_def)

lemma top00: "top_positions [x, x] = [0, 1]"
  by (simp add: top_positions_def upt2)

lemma pick_12: "pick_best fst 1 2 [0, 1] 2 = Inr 1"
  by (simp add: pick_best_def edge_pair_def)

lemma greedy_run:
  "edge_to_proc_greedy fst 1 2 (1::nat) 2 (\<lambda>_. {}) [0, 0] False True
     = Inr (1, (\<lambda>_. {})(1 := {1}, 2 := {1}), [0, 1])"
proof -
  have sc: "map (greedy_score 1 2 {} {} [0, 0] False) [0..<2] = [0, 0]"
    by (simp add: upt2 greedy_score_def degree_presence_def bal00)
  have len: "length [0, 0::nat] = 2" by simp
  have ne: "([0, 0::nat] = []) = False" by simp
  show ?thesis
    apply (simp only: edge_to_proc_greedy_def Let_def len ne if_False sc top00 pick_12 sum.case)
    apply (simp add: place_replica_def)
    done
qed

lemma greedy_candidates_run:
  "edge_to_proc_greedy_candidates fst 1 2 (1::nat) 2 (\<lambda>_. {}) [1] [0, 0] False True
     = Inr (1, (\<lambda>_. {})(1 := {1}, 2 := {1}), [0, 1])"
proof -
  have sc: "map (greedy_score 1 2 {} {} [0, 0] False) [1] = [0]"
    by (simp add: greedy_score_def degree_presence_def bal00)
  have tp: "top_positions [0] = [0]" by (simp add: top_positions_def)
  have pb: "pick_best fst 1 2 (map (\<lambda>j. [1] ! j) [0]) 2 = Inr 1"
    by (simp add: pick_best_def)
  have len: "length [0, 0::nat] = 2" by simp
  have ne: "([0, 0::nat] = []) = False" "([1::nat] = []) = False"
    "(\<exists>i \<in> set [1::nat]. 2 \<le> i) = False" by simp_all
  show ?thesis
    apply (simp only: edge_to_proc_greedy_candidates_def Let_def len ne if_False sc tp pb sum.case)
    apply (simp add: place_replica_def)
    done
qed

lemma hdrf_run:
  "edge_to_proc_hdrf fst 1 2 (1::nat) 2 (\<lambda>_. {}) (1::nat) 2 (\<lambda>_. 0) [0, 0] False True
     = Inr (1, (\<lambda>_. {})(1 := {1}, 2 := {1}), (\<lambda>_. 0)(1 := 1, 2 := 1), [0, 1])"
proof -
  have sc: "map (hdrf_score 1 2 {} {} 0 0 [0, 0] False) [0..<2] = [0, 0]"
    by (simp add: upt2 hdrf_score_def degree_presence_def bal00)
  have len: "length [0, 0::nat] = 2" by simp
  have ne: "([0, 0::nat] = []) = False" by simp
  show ?thesis
    apply (simp only: edge_to_proc_hdrf_def Let_def len ne if_False sc top00 pick_12 sum.case)
    apply (simp add: place_replica_def)
    done
qed


lemma fold_count: "fold (\<lambda>x count. count + x) xs a = a + sum_list xs" for a :: nat
  by (induction xs arbitrary: a) simp_all

lemma hdrf_add_edges_new:
  assumes "0 < numprocs"
  shows "\<exists>st. hdrf_add_edges hash_edge (hdrf_ingress_new numprocs uh ur) es = Inr st \<and>
           sum_list (hdrf_proc_num_edges st) = length es"
proof -
  have "hdrf_proc_num_edges (hdrf_ingress_new numprocs uh ur) \<noteq> []"
    using assms by (simp add: hdrf_ingress_new_def)
  from hdrf_add_edges_sum [OF this, of hash_edge es]
  show ?thesis by (auto simp: hdrf_ingress_new_def sum_list_replicate0)
qed

lemma hdrf_finalize_count: "snd (hdrf_finalize st) = sum_list (hdrf_proc_num_edges st)"
  by (simp add: hdrf_finalize_def Let_def fold_count)

text \<open>
  Claim C6, as stated, fails: the count that \<open>finalize\<close> logs is the sum of the machine's
  own \<open>proc_num_edges\<close>.  Two machines of a two-machine cluster: the first has added one
  edge, the second two.  The first machine's \<open>finalize\<close> reports 1, the edge count over
  the cluster is 3.
\<close>

theorem finalize_count_not_global:
  "\<not> isl (hdrf_add_edges fst (hdrf_ingress_new 2 False False) [(1, 2)]) \<and>
   \<not> isl (hdrf_add_edges fst (hdrf_ingress_new 2 False False) [(1, 2), (3, 4)]) \<and>
   snd (hdrf_finalize (projr (hdrf_add_edges fst (hdrf_ingress_new 2 False False) [(1, 2)]))) = 1 \<and>
   global_edge_count
     [projr (hdrf_add_edges fst (hdrf_ingress_new 2 False False) [(1, 2)]),
      projr (hdrf_add_edges fst (hdrf_ingress_new 2 False False) [(1, 2), (3, 4)])] = 3"
proof -
  obtain m0 where m0: "hdrf_add_edges fst (hdrf_ingress_new 2 False False) [(1, 2)] = Inr m0"
    "sum_list (hdrf_proc_num_edges m0) = 1"
    using hdrf_add_edges_new [of 2 fst False False "[(1, 2)]"] by auto
  obtain m1 where m1: "hdrf_add_edges fst (hdrf_ingress_new 2 False False) [(1, 2), (3, 4)] = Inr m1"
    "sum_list (hdrf_proc_num_edges m1) = 2"
    using hdrf_add_edges_new [of 2 fst False False "[(1, 2), (3, 4)]"] by auto
  show ?thesis
    unfolding m0 m1 by (simp add: m0(2) m1(2) hdrf_finalize_count global_edge_count_def)
qed

text \<open>
  Claim C6, amended.  \<open>finalize\<close> of the HDRF front end clears both tables, leaves the
  load vector as it is, and reports the sum of this machine's own load vector; after
  any sequence \<open>es\<close> of \<open>add_edge\<close> calls on a freshly constructed front end that is the
  number of edges this machine itself has decided, \<open>length es\<close>.
\<close>

theorem hdrf_finalize_reports_local_count:
  "entries (hdrf_dht (fst (hdrf_finalize st))) = {} \<and>
   entries (hdrf_degree_dht (fst (hdrf_finalize st))) = {} \<and>
   hdrf_proc_num_edges (fst (hdrf_finalize st)) = hdrf_proc_num_edges st \<and>
   snd (hdrf_finalize st) = sum_list (hdrf_proc_num_edges st) \<and>
   (0 < numprocs \<and> hdrf_add_edges hash_edge (hdrf_ingress_new numprocs uh ur) es = Inr st \<longrightarrow>
      snd (hdrf_finalize st) = length es)"
proof -
  have a: "entries (hdrf_dht (fst (hdrf_finalize st))) = {} \<and>
   entries (hdrf_degree_dht (fst (hdrf_finalize st))) = {} \<and>
   hdrf_proc_num_edges (fst (hdrf_finalize st)) = hdrf_proc_num_edges st"
    by (simp add: hdrf_finalize_def Let_def table_clear_def table_new_def)
  have b: "0 < numprocs \<and> hdrf_add_edges hash_edge (hdrf_ingress_new numprocs uh ur) es = Inr st \<longrightarrow>
      snd (hdrf_finalize st) = length es"
    using hdrf_add_edges_new [of numprocs hash_edge uh ur es]
    by (auto simp: hdrf_finalize_count)
  from a b hdrf_finalize_count [of st] show ?thesis by blast
qed

theorem hdrf_finalize_reports_local_count_witness:
  "(0::nat) < 2 \<and>
   hdrf_add_edges fst (hdrf_ingress_new 2 False False) [(1, 2), (3, 4)]
     = Inr (projr (hdrf_add_edges fst (hdrf_ingress_new 2 False False) [(1, 2), (3, 4)])) \<and>
   snd (hdrf_finalize (projr (hdrf_add_edges fst (hdrf_ingress_new 2 False False) [(1, 2), (3, 4)])))
     = length [(1::nat, 2::nat), (3, 4)] \<and>
   entries (hdrf_dht (fst (hdrf_finalize
     (projr (hdrf_add_edges fst (hdrf_ingress_new 2 False False) [(1, 2), (3, 4)]))))) = {}"
proof -
  have z: "(0::nat) < 2" by simp
  have x: "hdrf_add_edges fst (hdrf_ingress_new 2 False False) [(1, 2), (3, 4)]
     = Inr (projr (hdrf_add_edges fst (hdrf_ingress_new 2 False False) [(1, 2), (3, 4)]))"
    using hdrf_add_edges_new [OF z, of fst False False "[(1, 2), (3, 4)]"] by auto
  from hdrf_finalize_reports_local_count [where numprocs = 2 and hash_edge = fst and uh = False
      and ur = False and es = "[(1, 2), (3, 4)]"
      and st = "projr (hdrf_add_edges fst (hdrf_ingress_new 2 False False) [(1, 2), (3, 4)])"] z x
  show ?thesis by blast
qed

theorem replica_bits_after_decision_witness:
  "edge_to_proc_greedy fst 1 2 (1::nat) 2 (\<lambda>_. {}) [0, 0] False True
     = Inr (1, (\<lambda>_. {})(1 := {1}, 2 := {1}), [0, 1]) \<and>
   edge_to_proc_greedy_candidates fst 1 2 (1::nat) 2 (\<lambda>_. {}) [1] [0, 0] False True
     = Inr (1, (\<lambda>_. {})(1 := {1}, 2 := {1}), [0, 1]) \<and>
   edge_to_proc_hdrf fst 1 2 (1::nat) 2 (\<lambda>_. {}) (1::nat) 2 (\<lambda>_. 0) [0, 0] False True
     = Inr (1, (\<lambda>_. {})(1 := {1}, 2 := {1}), (\<lambda>_. 0)(1 := 1, 2 := 1), [0, 1]) \<and>
   ((\<lambda>_. {})(1 := {1::nat}, 2 := {1})) (1::nat) = {1} \<and>
   ((\<lambda>_. {})(1 := {1::nat}, 2 := {1})) (2::nat) = {1} \<and>
   [0, 1::nat] ! 1 = [0, 0] ! 1 + 1"
  using replica_bits_after_decision [where hash_edge = fst and source = 1 and target = 2
      and src = "1::nat" and dst = 2 and bits = "\<lambda>_. {}" and loads = "[0, 0]" and uh = False
      and ur = True and p = 1 and bits' = "(\<lambda>_. {})(1 := {1}, 2 := {1})" and loads' = "[0, 1]"
      and candidates = "[1]" and src_true = "1::nat" and dst_true = 2 and degs = "\<lambda>_. 0"
      and degs' = "(\<lambda>_. 0)(1 := 1, 2 := 1)"]
    greedy_run greedy_candidates_run hdrf_run
  by simp

section \<open>Properties of the deciders in machine arithmetic\<close>

subsection \<open>Powers of two, exponents and rounding to an integer\<close>

lemma powi_nat: "0 \<le> e \<Longrightarrow> (2::real) powi e = 2 ^ nat e"
  by (simp add: power_int_def)

lemma powi_neg: "e \<le> 0 \<Longrightarrow> (2::real) powi e = 1 / 2 ^ nat (- e)"
  by (cases "e = 0") (simp_all add: power_int_def field_simps)

lemma powi_less_iff: "(2::real) powi a < 2 powi b \<longleftrightarrow> a < b"
proof
  assume l: "(2::real) powi a < 2 powi b"
  show "a < b"
  proof (rule ccontr)
    assume "\<not> a < b"
    then have "b \<le> a" by simp
    then have "(2::real) powi b \<le> 2 powi a" by (intro power_int_increasing) simp_all
    then show False using l by simp
  qed
next
  assume "a < b"
  then show "(2::real) powi a < 2 powi b" by (intro power_int_strict_increasing) simp_all
qed

lemma powi_le_iff: "(2::real) powi a \<le> 2 powi b \<longleftrightarrow> a \<le> b"
  using powi_less_iff [of b a] by (simp add: not_less [symmetric] del: not_less)

lemma powi_pos: "0 < (2::real) powi e"
  by simp

lemma powi_split: "(2::real) powi (a - b) = 2 powi a / 2 powi b"
  by (simp add: power_int_diff)

lemma rhe_int [simp]: "round_half_even (of_int n) = n"
  by (simp add: round_half_even_def)

lemma two_pow_le_int: "2 ^ k \<le> (n::int) \<Longrightarrow> (2::real) ^ k \<le> of_int n"
proof -
  assume "2 ^ k \<le> n"
  then have "(of_int (2 ^ k) :: real) \<le> of_int n" by (simp only: of_int_le_iff)
  then show ?thesis by simp
qed

lemma int_le_two_pow: "(n::int) \<le> 2 ^ k \<Longrightarrow> of_int n \<le> (2::real) ^ k"
proof -
  assume "n \<le> 2 ^ k"
  then have "(of_int n :: real) \<le> of_int (2 ^ k)" by (simp only: of_int_le_iff)
  then show ?thesis by simp
qed

lemma expo_bounds_ge1:
  assumes "1 \<le> (a::real)"
  shows "2 powi (bitlen \<lfloor>a\<rfloor> - 1) \<le> a \<and> a < 2 powi (bitlen \<lfloor>a\<rfloor>)"
proof -
  let ?n = "\<lfloor>a\<rfloor>"
  have n: "0 < ?n" using assms by simp
  from bitlen_bounds [OF n]
  have b: "2 ^ nat (bitlen ?n - 1) \<le> ?n" "?n < 2 ^ nat (bitlen ?n)" by simp_all
  have bp: "1 \<le> bitlen ?n" using n by (simp add: bitlen_alt_def)
  have "(2::real) ^ nat (bitlen ?n - 1) \<le> of_int ?n" using b(1) by (rule two_pow_le_int)
  also have "\<dots> \<le> a" by simp
  finally have "2 ^ nat (bitlen ?n - 1) \<le> a" .
  moreover have "(2::real) powi (bitlen ?n - 1) = 2 ^ nat (bitlen ?n - 1)"
    using bp by (intro powi_nat) simp
  ultimately have l: "2 powi (bitlen ?n - 1) \<le> a" by simp
  have "?n + 1 \<le> 2 ^ nat (bitlen ?n)" using b(2) by simp
  then have "of_int (?n + 1) \<le> (2::real) ^ nat (bitlen ?n)" by (rule int_le_two_pow)
  moreover have "a < of_int (?n + 1)" by linarith
  ultimately have "a < 2 ^ nat (bitlen ?n)" by linarith
  moreover have "(2::real) powi (bitlen ?n) = 2 ^ nat (bitlen ?n)"
    using bp by (intro powi_nat) simp
  ultimately have u: "a < 2 powi (bitlen ?n)" by simp
  show ?thesis using l u by simp
qed

lemma expo_bounds_lt1:
  assumes "0 < (a::real)" "a < 1"
  shows "2 powi (- bitlen (\<lceil>1 / a\<rceil> - 1)) \<le> a \<and> a < 2 powi (- bitlen (\<lceil>1 / a\<rceil> - 1) + 1)"
proof -
  let ?m = "\<lceil>1 / a\<rceil> - 1"
  let ?k = "bitlen ?m"
  have "1 < 1 / a" using assms by simp
  then have "1 < \<lceil>1 / a\<rceil>" by linarith
  then have m: "0 < ?m" by simp
  from bitlen_bounds [OF m]
  have b: "2 ^ nat (?k - 1) \<le> ?m" "?m < 2 ^ nat ?k" by simp_all
  have kp: "1 \<le> ?k" using m by (simp add: bitlen_alt_def)
  have "?m + 1 \<le> 2 ^ nat ?k" using b(2) by simp
  then have "of_int (?m + 1) \<le> (2::real) ^ nat ?k" by (rule int_le_two_pow)
  moreover have "1 / a \<le> of_int (?m + 1)" by simp
  ultimately have "1 / a \<le> 2 ^ nat ?k" by linarith
  then have "1 / 2 ^ nat ?k \<le> a" using assms(1) by (simp add: field_simps)
  moreover have "(2::real) powi (- ?k) = 1 / 2 ^ nat (- (- ?k))"
    using kp by (intro powi_neg) simp
  ultimately have l: "2 powi (- ?k) \<le> a" by simp
  have "(2::real) ^ nat (?k - 1) \<le> of_int ?m" using b(1) by (rule two_pow_le_int)
  moreover have "of_int ?m < 1 / a" by linarith
  ultimately have "2 ^ nat (?k - 1) < 1 / a" by linarith
  then have "a < 1 / 2 ^ nat (?k - 1)" using assms(1) by (simp add: field_simps)
  moreover have "(2::real) powi (- ?k + 1) = 1 / 2 ^ nat (- (- ?k + 1))"
    using kp by (intro powi_neg) simp
  moreover have "nat (- (- ?k + 1)) = nat (?k - 1)" by simp
  ultimately have u: "a < 2 powi (- ?k + 1)" by simp
  show ?thesis using l u by simp
qed

lemma expo_bounds:
  assumes "0 < a"
  shows "2 powi (expo a) \<le> a \<and> a < 2 powi (expo a + 1)"
proof (cases "1 \<le> a")
  case True
  from expo_bounds_ge1 [OF True] True show ?thesis by (simp add: expo_def)
next
  case False
  then have "a < 1" by simp
  from expo_bounds_lt1 [OF assms this] False show ?thesis by (simp add: expo_def)
qed

lemma expo_unique:
  assumes "0 < a" "2 powi e \<le> a" "a < 2 powi (e + 1)"
  shows "expo a = e"
proof -
  from expo_bounds [OF assms(1)]
  have b: "2 powi (expo a) \<le> a" "a < 2 powi (expo a + 1)" by simp_all
  have "(2::real) powi e < 2 powi (expo a + 1)" using assms(2) b(2) by linarith
  then have 1: "e < expo a + 1" by (simp only: powi_less_iff)
  have "(2::real) powi (expo a) < 2 powi (e + 1)" using assms(3) b(1) by linarith
  then have 2: "expo a < e + 1" by (simp only: powi_less_iff)
  from 1 2 show ?thesis by simp
qed

lemma rhe_lower: "\<lfloor>y\<rfloor> \<le> round_half_even y"
  by (simp add: round_half_even_def Let_def)

lemma rhe_upper: "round_half_even y \<le> \<lfloor>y\<rfloor> + 1"
  by (simp add: round_half_even_def Let_def)

lemma rhe_down: "y - of_int \<lfloor>y\<rfloor> < 1 / 2 \<Longrightarrow> round_half_even y = \<lfloor>y\<rfloor>"
  by (simp add: round_half_even_def Let_def)

lemma rhe_up: "1 / 2 < y - of_int \<lfloor>y\<rfloor> \<Longrightarrow> round_half_even y = \<lfloor>y\<rfloor> + 1"
  by (simp add: round_half_even_def Let_def)

lemma rhe_mono:
  assumes "x \<le> y"
  shows "round_half_even x \<le> round_half_even y"
proof (cases "\<lfloor>x\<rfloor> = \<lfloor>y\<rfloor>")
  case True
  consider "x - of_int \<lfloor>x\<rfloor> < 1 / 2" | "1 / 2 < y - of_int \<lfloor>y\<rfloor>"
    | "x - of_int \<lfloor>x\<rfloor> = 1 / 2" "y - of_int \<lfloor>y\<rfloor> = 1 / 2"
    using assms True by force
  then show ?thesis
  proof cases
    case 1
    then show ?thesis using rhe_down [OF 1] rhe_lower [of y] True by simp
  next
    case 2
    then show ?thesis using rhe_up [OF 2] rhe_upper [of x] True by simp
  next
    case 3
    then have "x = y" using True by simp
    then show ?thesis by simp
  qed
next
  case False
  have "\<lfloor>x\<rfloor> \<le> \<lfloor>y\<rfloor>" using assms by (rule floor_mono)
  then have "\<lfloor>x\<rfloor> + 1 \<le> \<lfloor>y\<rfloor>" using False by simp
  then show ?thesis using rhe_upper [of x] rhe_lower [of y] by linarith
qed

lemma rhe_nonneg: "0 \<le> y \<Longrightarrow> 0 \<le> round_half_even y"
  using rhe_mono [of 0 y] rhe_int [of 0] by simp

lemma rhe_le_int: "y \<le> of_int n \<Longrightarrow> round_half_even y \<le> n"
  using rhe_mono [of y "of_int n"] by simp

lemma rhe_ge_int: "of_int n \<le> y \<Longrightarrow> n \<le> round_half_even y"
  using rhe_mono [of "of_int n" y] by simp

subsection \<open>Rounding to a double\<close>

lemma round_double_pos:
  assumes "0 < x"
  shows "round_double x =
     (if (2::real) powi 1024 \<le> of_int (round_half_even (x / 2 powi (max (expo x) (- 1022) - 52)))
                           * 2 powi (max (expo x) (- 1022) - 52)
      then PInf
      else Fin (of_int (round_half_even (x / 2 powi (max (expo x) (- 1022) - 52)))
                * 2 powi (max (expo x) (- 1022) - 52)))"
proof -
  have f: "(x = 0) = False" "\<bar>x\<bar> = x" "(0 < x) = True" using assms by simp_all
  show ?thesis by (simp only: round_double_def Let_def f if_False if_True)
qed

lemma round_double_zero [simp]: "round_double 0 = Fin 0"
  by (simp add: round_double_def)

lemma round_double_neg:
  assumes "x < 0"
  shows "round_double x = dneg (round_double (- x))"
proof -
  have f: "(x = 0) = False" "(- x = 0) = False" "\<bar>x\<bar> = - x" "\<bar>- x\<bar> = - x"
    "(0 < x) = False" "(0 < - x) = True"
    using assms by simp_all
  show ?thesis
    by (simp only: round_double_def Let_def f if_False if_True dneg.simps minus_minus if_distrib
          refl if_cancel cong: if_cong)
qed

lemma round_double_minus: "round_double (- x) = dneg (round_double x)"
proof -
  consider "x = 0" | "0 < x" | "x < 0" by linarith
  then show ?thesis
  proof cases
    case 1
    then show ?thesis by simp
  next
    case 2
    then have "- x < 0" by simp
    from round_double_neg [OF this] show ?thesis by simp
  next
    case 3
    have "dneg (dneg (round_double (- x))) = round_double (- x)"
      by (cases "round_double (- x)") simp_all
    then show ?thesis using round_double_neg [OF 3] by simp
  qed
qed

lemma round_pos_bounded:
  assumes "0 < x" "x \<le> 2 powi k" "- 1022 \<le> k" "k \<le> 1023"
  shows "\<exists>r. round_double x = Fin r \<and> 0 \<le> r \<and> r \<le> 2 powi k"
proof -
  let ?e = "max (expo x) (- 1022)"
  let ?u = "(2::real) powi (?e - 52)"
  let ?n = "round_half_even (x / ?u)"
  have u: "0 < ?u" by simp
  from expo_bounds [OF assms(1)] have "2 powi (expo x) \<le> x" by simp
  then have "(2::real) powi (expo x) \<le> 2 powi k" using assms(2) by linarith
  then have "expo x \<le> k" by (simp only: powi_le_iff)
  then have ek: "?e \<le> k" using assms(3) by simp
  then have nn: "0 \<le> k - ?e + 52" by simp
  have "(2::real) powi k / ?u = 2 powi (k - (?e - 52))" by (simp only: powi_split)
  also have "\<dots> = 2 powi (k - ?e + 52)" by (simp add: algebra_simps)
  also have "\<dots> = 2 ^ nat (k - ?e + 52)" using nn by (rule powi_nat)
  also have "\<dots> = of_int (2 ^ nat (k - ?e + 52))" by simp
  finally have q: "(2::real) powi k / ?u = of_int (2 ^ nat (k - ?e + 52))" .
  have "x / ?u \<le> 2 powi k / ?u" using assms(2) u by (simp add: divide_right_mono)
  then have "x / ?u \<le> of_int (2 ^ nat (k - ?e + 52))" using q by simp
  then have "?n \<le> 2 ^ nat (k - ?e + 52)" by (rule rhe_le_int)
  then have "(of_int ?n :: real) \<le> of_int (2 ^ nat (k - ?e + 52))" by (simp only: of_int_le_iff)
  then have "of_int ?n \<le> 2 powi k / ?u" using q by simp
  then have le: "of_int ?n * ?u \<le> 2 powi k" using u by (simp add: field_simps)
  have "0 \<le> x / ?u" using assms(1) u by simp
  then have "0 \<le> ?n" by (rule rhe_nonneg)
  then have ge: "0 \<le> of_int ?n * ?u" using u by simp
  have "(2::real) powi k < 2 powi 1024" using assms(4) by (simp only: powi_less_iff)
  then have "\<not> 2 powi 1024 \<le> of_int ?n * ?u" using le by linarith
  then have "round_double x = Fin (of_int ?n * ?u)"
    unfolding round_double_pos [OF assms(1)] by (simp only: if_False)
  then show ?thesis using le ge by blast
qed

lemma round_bounded:
  assumes "\<bar>x\<bar> \<le> 2 powi k" "- 1022 \<le> k" "k \<le> 1023"
  shows "\<exists>r. round_double x = Fin r \<and> \<bar>r\<bar> \<le> 2 powi k \<and> (0 \<le> x \<longrightarrow> 0 \<le> r)"
proof -
  consider "x = 0" | "0 < x" | "x < 0" by linarith
  then show ?thesis
  proof cases
    case 1
    then show ?thesis by simp
  next
    case 2
    then have "x \<le> 2 powi k" using assms(1) by simp
    from round_pos_bounded [OF 2 this assms(2,3)] show ?thesis by auto
  next
    case 3
    then have p: "0 < - x" "- x \<le> 2 powi k" using assms(1) by simp_all
    from round_pos_bounded [OF p assms(2,3)]
    obtain r where r: "round_double (- x) = Fin r" "0 \<le> r" "r \<le> 2 powi k" by blast
    have "round_double x = dneg (round_double (- x))"
      using round_double_minus [of "- x"] by simp
    then have "round_double x = Fin (- r)" using r(1) by simp
    then show ?thesis using r(2,3) 3 by simp
  qed
qed

lemma round_lower:
  assumes "2 powi k \<le> x" "- 1022 \<le> k" "round_double x = Fin r"
  shows "2 powi k \<le> r"
proof -
  have xp: "0 < x" using assms(1) powi_pos [of k] by linarith
  let ?e = "max (expo x) (- 1022)"
  let ?u = "(2::real) powi (?e - 52)"
  let ?n = "round_half_even (x / ?u)"
  have u: "0 < ?u" by simp
  from expo_bounds [OF xp] have b: "2 powi (expo x) \<le> x" "x < 2 powi (expo x + 1)" by simp_all
  have "(2::real) powi k < 2 powi (expo x + 1)" using assms(1) b(2) by linarith
  then have "k < expo x + 1" by (simp only: powi_less_iff)
  then have ke: "k \<le> expo x" by simp
  then have e: "?e = expo x" using assms(2) by simp
  have "(2::real) powi ?e / ?u = 2 powi (?e - (?e - 52))" by (simp only: powi_split)
  also have "\<dots> = 2 powi 52" by simp
  also have "\<dots> = of_int (2 ^ 52)" by simp
  finally have q: "(2::real) powi ?e / ?u = of_int (2 ^ 52)" .
  have "2 powi ?e / ?u \<le> x / ?u" using b(1) u e by (simp add: divide_right_mono)
  then have "of_int (2 ^ 52) \<le> x / ?u" using q by simp
  then have "2 ^ 52 \<le> ?n" by (rule rhe_ge_int)
  then have "(of_int (2 ^ 52) :: real) \<le> of_int ?n" by (simp only: of_int_le_iff)
  then have "2 powi ?e / ?u \<le> of_int ?n" using q by simp
  then have "2 powi ?e \<le> of_int ?n * ?u" using u by (simp add: field_simps)
  moreover have "(2::real) powi k \<le> 2 powi ?e" using ke e by (simp only: powi_le_iff)
  ultimately have "2 powi k \<le> of_int ?n * ?u" by linarith
  moreover have "r = of_int ?n * ?u"
    using assms(3) unfolding round_double_pos [OF xp]
    by (simp only: double.inject double.distinct split: if_splits)
  ultimately show ?thesis by simp
qed

lemma round_cert:
  assumes "0 < x" "2 powi e \<le> x" "x < 2 powi (e + 1)" "- 1022 \<le> e" "e \<le> 1022"
    and "round_half_even (x / 2 powi (e - 52)) = n"
  shows "round_double x = Fin (of_int n * 2 powi (e - 52))"
proof -
  have ex: "expo x = e" using assms(1,2,3) by (rule expo_unique)
  have m: "max (expo x) (- 1022) = e" using ex assms(4) by simp
  have "x \<le> 2 powi (e + 1)" using assms(3) by simp
  from round_pos_bounded [OF assms(1) this] assms(4,5)
  obtain r where r: "round_double x = Fin r" by auto
  then have "r = of_int n * 2 powi (e - 52)"
    unfolding round_double_pos [OF assms(1)] m assms(6)
    by (simp only: double.inject double.distinct split: if_splits)
  then show ?thesis using r by simp
qed

lemma rhe_cert:
  assumes "\<bar>y - of_int n\<bar> < 1 / 2"
  shows "round_half_even y = n"
proof (cases "of_int n \<le> y")
  case True
  then have f: "\<lfloor>y\<rfloor> = n" using assms by (intro floor_unique) linarith+
  then have "y - of_int \<lfloor>y\<rfloor> < 1 / 2" using assms True by simp
  from rhe_down [OF this] f show ?thesis by simp
next
  case False
  then have f: "\<lfloor>y\<rfloor> = n - 1" using assms by (intro floor_unique) (simp; linarith)+
  then have "1 / 2 < y - of_int \<lfloor>y\<rfloor>" using assms False by simp
  from rhe_up [OF this] f show ?thesis by simp
qed

lemma rhe_tie_up:
  assumes "y = of_int n - 1 / 2" "even n"
  shows "round_half_even y = n"
proof -
  have f: "\<lfloor>y\<rfloor> = n - 1" using assms(1) by (intro floor_unique) simp_all
  then show ?thesis using assms by (simp add: round_half_even_def Let_def)
qed

lemma rhe_tie_down:
  assumes "y = of_int n + 1 / 2" "even n"
  shows "round_half_even y = n"
proof -
  have f: "\<lfloor>y\<rfloor> = n" using assms(1) by (intro floor_unique) simp_all
  then show ?thesis using assms by (simp add: round_half_even_def Let_def)
qed

lemma round_near:
  assumes "0 < x" "2 powi e \<le> x" "x < 2 powi (e + 1)" "- 1022 \<le> e" "e \<le> 1022"
    and "\<bar>x / 2 powi (e - 52) - of_int n\<bar> < 1 / 2" and "y = of_int n * 2 powi (e - 52)"
  shows "round_double x = Fin y"
  using round_cert [OF assms(1-5) rhe_cert [OF assms(6)]] assms(7) by simp

lemma round_exact:
  assumes "0 < x" "2 powi e \<le> x" "x < 2 powi (e + 1)" "- 1022 \<le> e" "e \<le> 1022"
    and "x / 2 powi (e - 52) = of_int n"
  shows "round_double x = Fin x"
proof -
  have "\<bar>x / 2 powi (e - 52) - of_int n\<bar> < 1 / 2" using assms(6) by simp
  moreover have "x = of_int n * 2 powi (e - 52)" using assms(6) by (simp add: field_simps)
  ultimately show ?thesis using assms(1-5) by (rule round_near [rotated 5])
qed

lemma round_int_pos_exact:
  assumes "0 < m" "m \<le> 2 ^ 53"
  shows "round_double (of_int m) = Fin (of_int m)"
proof -
  let ?x = "of_int m :: real"
  have xp: "0 < ?x" using assms(1) by simp
  from expo_bounds [OF xp]
  have b: "2 powi (expo ?x) \<le> ?x" "?x < 2 powi (expo ?x + 1)" by simp_all
  have "(1::real) \<le> ?x" using assms(1) by simp
  then have "(2::real) powi 0 < 2 powi (expo ?x + 1)" using b(2) by simp
  then have "0 < expo ?x + 1" by (simp only: powi_less_iff)
  then have e0: "0 \<le> expo ?x" by simp
  have "?x \<le> of_int (2 ^ 53)" using assms(2) by (simp only: of_int_le_iff)
  then have x53: "?x \<le> 2 powi 53" by simp
  then have "(2::real) powi (expo ?x) \<le> 2 powi 53" using b(1) by linarith
  then have e53: "expo ?x \<le> 53" by (simp only: powi_le_iff)
  show ?thesis
  proof (cases "expo ?x \<le> 52")
    case True
    have "?x / 2 powi (expo ?x - 52) = ?x * 2 powi (52 - expo ?x)"
      by (simp add: power_int_diff)
    also have "(2::real) powi (52 - expo ?x) = 2 ^ nat (52 - expo ?x)"
      using True by (intro powi_nat) simp
    also have "?x * 2 ^ nat (52 - expo ?x) = of_int (m * 2 ^ nat (52 - expo ?x))" by simp
    finally have q: "?x / 2 powi (expo ?x - 52) = of_int (m * 2 ^ nat (52 - expo ?x))" .
    show ?thesis using xp b e0 True q by (intro round_exact [where e = "expo ?x" and n = "m * 2 ^ nat (52 - expo ?x)"]) simp_all
  next
    case False
    then have e: "expo ?x = 53" using e53 by simp
    then have "?x = 2 powi 53" using b(1) x53 by simp
    then have q: "?x / 2 powi (53 - 52) = of_int (2 ^ 52)" by simp
    show ?thesis using xp b e q by (intro round_exact [where e = 53 and n = "2 ^ 52"]) simp_all
  qed
qed

lemma round_int_exact:
  assumes "\<bar>m\<bar> \<le> 2 ^ 53"
  shows "round_double (of_int m) = Fin (of_int m)"
proof -
  consider "m = 0" | "0 < m" | "m < 0" by linarith
  then show ?thesis
  proof cases
    case 1
    then show ?thesis by simp
  next
    case 2
    then show ?thesis using assms by (intro round_int_pos_exact) simp_all
  next
    case 3
    then have "round_double (of_int (- m)) = Fin (of_int (- m))"
      using assms by (intro round_int_pos_exact) simp_all
    then have "dneg (round_double (of_int m)) = Fin (- of_int m)"
      using round_double_minus [of "of_int m"] by simp
    then show ?thesis by (cases "round_double (of_int m)") simp_all
  qed
qed

lemma bnd_Fin: "bounded_by k d \<Longrightarrow> \<exists>r. d = Fin r \<and> \<bar>r\<bar> \<le> 2 powi k"
  by (cases d) simp_all

lemma bnd_mono: "bounded_by k d \<Longrightarrow> k \<le> k' \<Longrightarrow> bounded_by k' d"
proof -
  assume w: "bounded_by k d" and le: "k \<le> k'"
  from bnd_Fin [OF w] obtain r where r: "d = Fin r" "\<bar>r\<bar> \<le> 2 powi k" by blast
  have "(2::real) powi k \<le> 2 powi k'" using le by (simp only: powi_le_iff)
  then show ?thesis using r by simp
qed

lemma bnd_round:
  assumes "\<bar>x\<bar> \<le> 2 powi k" "- 1022 \<le> k" "k \<le> 1023"
  shows "bounded_by k (round_double x)"
  using round_bounded [OF assms] by auto

lemma bnd_dadd:
  assumes "bounded_by k a" "bounded_by k b" "- 1023 \<le> k" "k \<le> 1022"
  shows "bounded_by (k + 1) (dadd a b)"
proof -
  from bnd_Fin [OF assms(1)] obtain x where x: "a = Fin x" "\<bar>x\<bar> \<le> 2 powi k" by blast
  from bnd_Fin [OF assms(2)] obtain y where y: "b = Fin y" "\<bar>y\<bar> \<le> 2 powi k" by blast
  have "(2::real) powi (k + 1) = 2 powi k * 2" by (simp add: power_int_add)
  then have "\<bar>x + y\<bar> \<le> 2 powi (k + 1)" using x(2) y(2) by linarith
  then have "bounded_by (k + 1) (round_double (x + y))" using assms(3,4) by (intro bnd_round) simp_all
  then show ?thesis using x(1) y(1) by simp
qed

lemma bnd_dneg: "bounded_by k a \<Longrightarrow> bounded_by k (dneg a)"
  by (cases a) simp_all

lemma bnd_dsub:
  assumes "bounded_by k a" "bounded_by k b" "- 1023 \<le> k" "k \<le> 1022"
  shows "bounded_by (k + 1) (dsub a b)"
  unfolding dsub_def using assms by (intro bnd_dadd bnd_dneg)

lemma bnd_ddiv:
  assumes "bounded_by k a" "b = Fin y" "1 \<le> y" "- 1022 \<le> k" "k \<le> 1023"
  shows "bounded_by k (ddiv a b)"
proof -
  from bnd_Fin [OF assms(1)] obtain x where x: "a = Fin x" "\<bar>x\<bar> \<le> 2 powi k" by blast
  have "\<bar>x / y\<bar> = \<bar>x\<bar> / y" using assms(3) by simp
  also have "\<dots> \<le> \<bar>x\<bar> / 1" using assms(3) by (intro divide_left_mono) simp_all
  finally have "\<bar>x / y\<bar> \<le> 2 powi k" using x(2) by simp
  then have "bounded_by k (round_double (x / y))" using assms(4,5) by (intro bnd_round)
  moreover have "y \<noteq> 0" using assms(3) by simp
  ultimately show ?thesis using x(1) assms(2) by simp
qed

lemma uint64_bound: "uint (w :: 64 word) < 2 ^ 64"
  using uint_bounded [of w] by simp

lemma int_bnd:
  assumes "0 \<le> m" "m \<le> 2 ^ 64"
  shows "bounded_by 64 (round_double (of_int m))"
proof -
  have "(of_int m :: real) \<le> of_int (2 ^ 64)" using assms(2) by (simp only: of_int_le_iff)
  then have "\<bar>of_int m :: real\<bar> \<le> 2 powi 64" using assms(1) by simp
  then show ?thesis by (intro bnd_round) simp_all
qed

lemma int_ge1:
  assumes "1 \<le> m" "round_double (of_int m) = Fin r"
  shows "1 \<le> r"
proof -
  have "(2::real) powi 0 \<le> of_int m" using assms(1) by simp
  from round_lower [OF this _ assms(2)] show ?thesis by simp
qed

lemma size_t_bnd: "bounded_by 64 (double_of_size_t w)"
  unfolding double_of_size_t_def using uint64_bound [of w] by (intro int_bnd) simp_all

lemma size_t_exact: "uint w \<le> 2 ^ 53 \<Longrightarrow> double_of_size_t w = Fin (of_int (uint w))"
  unfolding double_of_size_t_def by (intro round_int_exact) simp

lemma size_t_ge1:
  assumes "w \<noteq> 0"
  shows "\<exists>r. double_of_size_t w = Fin r \<and> 1 \<le> r"
proof -
  from bnd_Fin [OF size_t_bnd [of w]] obtain r where r: "double_of_size_t w = Fin r"
    by blast
  have "uint w \<noteq> 0" using assms by (simp add: uint_0_iff)
  then have "1 \<le> uint w" using uint_ge_0 [of w] by linarith
  from int_ge1 [OF this r [unfolded double_of_size_t_def]] show ?thesis using r by blast
qed

lemma tolerance_pos: "\<exists>t. tolerance = Fin t \<and> 0 < t"
proof -
  have "\<bar>1 / 100000 :: real\<bar> \<le> 2 powi 0" by simp
  from round_bounded [OF this] obtain t where t: "tolerance = Fin t"
    unfolding tolerance_def by auto
  have "(2::real) powi (- 17) \<le> 1 / 100000" by (simp add: powi_neg)
  from round_lower [OF this _ t [unfolded tolerance_def]] have "2 powi (- 17) \<le> t" by simp
  moreover have "0 < (2::real) powi (- 17)" by simp
  ultimately have "0 < t" by linarith
  then show ?thesis using t by blast
qed

subsection \<open>Scores are finite\<close>

lemma bal_m_bnd:
  assumes ne: "proc_num_edges \<noteq> []" and small: "\<forall>l \<in> set proc_num_edges. uint l < 2 ^ 53"
  shows "bounded_by 64 (bal_m proc_num_edges i)"
proof -
  let ?mn = "Min (set proc_num_edges)"
  let ?mx = "Max (set proc_num_edges)"
  have fin: "finite (set proc_num_edges)" "set proc_num_edges \<noteq> {}" using ne by simp_all
  have mx: "?mx \<in> set proc_num_edges" using fin by (rule Max_in)
  have mn: "?mn \<in> set proc_num_edges" using fin by (rule Min_in)
  have "?mn \<le> ?mx" using fin mx by (intro Min_le) simp_all
  then have le: "uint ?mn \<le> uint ?mx" by (simp add: word_le_def)
  have smx: "uint ?mx < 2 ^ 53" and smn: "uint ?mn < 2 ^ 53" using small mx mn by blast+
  have emx: "double_of_size_t ?mx = Fin (of_int (uint ?mx))" using smx by (intro size_t_exact) simp
  have emn: "double_of_size_t ?mn = Fin (of_int (uint ?mn))" using smn by (intro size_t_exact) simp
  have "dadd (Fin 1) (double_of_size_t ?mx) = round_double (of_int (1 + uint ?mx))"
    by (simp only: emx dadd.simps of_int_add of_int_1)
  also have "\<dots> = Fin (of_int (1 + uint ?mx))"
    using smx uint_ge_0 [of ?mx] by (intro round_int_exact) simp
  finally have s1: "dadd (Fin 1) (double_of_size_t ?mx) = Fin (of_int (1 + uint ?mx))" .
  have "dsub (dadd (Fin 1) (double_of_size_t ?mx)) (double_of_size_t ?mn)
          = round_double (of_int (1 + uint ?mx - uint ?mn))"
    by (simp only: s1 emn dsub_def dneg.simps dadd.simps add_uminus_conv_diff of_int_diff)
  also have "\<dots> = Fin (of_int (1 + uint ?mx - uint ?mn))"
  proof (rule round_int_exact)
    have p53: "(2::int) ^ 53 = 9007199254740992" by simp
    show "\<bar>1 + uint ?mx - uint ?mn\<bar> \<le> 2 ^ 53"
      using smx le uint_ge_0 [of ?mn] unfolding p53 by linarith
  qed
  finally have den: "dsub (dadd (Fin 1) (double_of_size_t ?mx)) (double_of_size_t ?mn)
          = Fin (of_int (1 + uint ?mx - uint ?mn))" .
  have "1 \<le> 1 + uint ?mx - uint ?mn" using le by simp
  then have one: "(1::real) \<le> of_int (1 + uint ?mx - uint ?mn)" by (simp only: of_int_1_le_iff)
  show ?thesis
    unfolding bal_m_def Let_def
    by (rule bnd_ddiv [OF size_t_bnd den one]) simp_all
qed

lemma small_int_bnd: "0 \<le> k \<Longrightarrow> k \<le> 2 \<Longrightarrow> bounded_by 64 (double_of_int k)"
  unfolding double_of_int_def by (intro int_bnd) simp_all

lemma greedy_score_m_bnd:
  assumes "proc_num_edges \<noteq> []" "\<forall>l \<in> set proc_num_edges. uint l < 2 ^ 53"
  shows "bounded_by 65 (greedy_score_m source target src_degree dst_degree proc_num_edges usehash i)"
proof -
  have b: "bounded_by 64 (bal_m proc_num_edges i)" using assms by (rule bal_m_bnd)
  have "bounded_by (64 + 1) (dadd (bal_m proc_num_edges i) (double_of_int k))"
    if "0 \<le> k" "k \<le> 2" for k
    using b small_int_bnd [OF that] by (rule bnd_dadd) simp_all
  then show ?thesis unfolding greedy_score_m_def Let_def by simp
qed

lemma one_bnd: "0 \<le> k \<Longrightarrow> bounded_by k (Fin 1)"
proof -
  assume "0 \<le> k"
  then have "(2::real) powi 0 \<le> 2 powi k" by (simp only: powi_le_iff)
  then show ?thesis by simp
qed

lemma zero_bnd: "bounded_by k (Fin 0)"
  by simp

lemma hdrf_term_bnd:
  assumes "SUM_uv \<noteq> 0"
  shows "bounded_by 66 (dadd (Fin 1) (dsub (Fin 1)
           (ddiv (double_of_size_t degree) (double_of_size_t SUM_uv))))"
proof -
  from size_t_ge1 [OF assms] obtain y where y: "double_of_size_t SUM_uv = Fin y" "1 \<le> y"
    by blast
  have f: "bounded_by 64 (ddiv (double_of_size_t degree) (double_of_size_t SUM_uv))"
    by (rule bnd_ddiv [OF size_t_bnd y]) simp_all
  have "bounded_by (64 + 1) (dsub (Fin 1) (ddiv (double_of_size_t degree) (double_of_size_t SUM_uv)))"
    by (rule bnd_dsub [OF one_bnd f]) simp_all
  then have g: "bounded_by 65 (dsub (Fin 1) (ddiv (double_of_size_t degree) (double_of_size_t SUM_uv)))"
    by simp
  have "bounded_by (65 + 1) (dadd (Fin 1)
          (dsub (Fin 1) (ddiv (double_of_size_t degree) (double_of_size_t SUM_uv))))"
    by (rule bnd_dadd [OF one_bnd g]) simp_all
  then show ?thesis by simp
qed

lemma degree_sum_nonzero:
  assumes "uint (du :: 64 word) + uint (dv :: 64 word) + 2 < 2 ^ 64"
  shows "du + 1 + (dv + 1) \<noteq> 0"
proof -
  have p: "0 \<le> uint du" "0 \<le> uint dv" by simp_all
  have "uint (du + 1 + (dv + 1)) = (uint du + 1 + (uint dv + 1)) mod 2 ^ 64"
    by (simp add: uint_word_ariths mod_simps)
  also have "\<dots> = uint du + 1 + (uint dv + 1)" using assms p by (intro mod_pos_pos_trivial) simp_all
  finally have "uint (du + 1 + (dv + 1)) = uint du + 1 + (uint dv + 1)" .
  then have "uint (du + 1 + (dv + 1)) \<noteq> 0" using p by linarith
  then show ?thesis by auto
qed

lemma hdrf_score_m_bnd:
  assumes "proc_num_edges \<noteq> []" "\<forall>l \<in> set proc_num_edges. uint l < 2 ^ 53"
    and "uint src_true_degree + uint dst_true_degree + 2 < 2 ^ 64"
  shows "bounded_by 68 (hdrf_score_m source target src_degree dst_degree src_true_degree
           dst_true_degree proc_num_edges usehash i)"
proof -
  let ?S = "src_true_degree + 1 + (dst_true_degree + 1)"
  let ?nsd = "dadd (Fin 1) (dsub (Fin 1)
                (ddiv (double_of_size_t (src_true_degree + 1)) (double_of_size_t ?S)))"
  let ?ntd = "dadd (Fin 1) (dsub (Fin 1)
                (ddiv (double_of_size_t (dst_true_degree + 1)) (double_of_size_t ?S)))"
  have S: "?S \<noteq> 0" using assms(3) by (rule degree_sum_nonzero)
  have b: "bounded_by 66 (bal_m proc_num_edges i)"
    using bal_m_bnd [OF assms(1,2)] by (rule bnd_mono) simp
  have sd: "bounded_by 66 a" if "a = ?nsd \<or> a = Fin 0" for a
    using that hdrf_term_bnd [OF S] by auto
  have td: "bounded_by 67 c" if "c = ?ntd \<or> c = Fin 0" for c
  proof -
    have "bounded_by 66 c" using that hdrf_term_bnd [OF S] by auto
    then show ?thesis by (rule bnd_mono) simp
  qed
  have "bounded_by 68 (dadd (dadd (bal_m proc_num_edges i) a) c)"
    if a: "a = ?nsd \<or> a = Fin 0" and c: "c = ?ntd \<or> c = Fin 0" for a c
  proof -
    have "bounded_by (66 + 1) (dadd (bal_m proc_num_edges i) a)"
      by (rule bnd_dadd [OF b sd [OF a]]) simp_all
    then have "bounded_by 67 (dadd (bal_m proc_num_edges i) a)" by simp
    then have "bounded_by (67 + 1) (dadd (dadd (bal_m proc_num_edges i) a) c)"
      using td [OF c] by (rule bnd_dadd) simp_all
    then show ?thesis by simp
  qed
  then show ?thesis unfolding hdrf_score_m_def Let_def by simp
qed

subsection \<open>The tied-top set in machine arithmetic\<close>

lemma foldl_pick:
  "foldl (\<lambda>largest x. if dless largest x then x else largest) a ys \<in> insert a (set ys)"
  by (induction ys arbitrary: a) auto

lemma max_element_in: "xs \<noteq> [] \<Longrightarrow> max_element xs \<in> set xs"
  using foldl_pick [of "hd xs" "tl xs"] by (cases xs) (auto simp: max_element_def)

lemma top_positions_m_nonempty:
  assumes "proc_score \<noteq> []" "\<forall>d \<in> set proc_score. bounded_by k d"
  shows "top_positions_m proc_score \<noteq> []"
proof -
  from max_element_in [OF assms(1)] obtain j
    where j: "j < length proc_score" "proc_score ! j = max_element proc_score"
    by (auto simp: in_set_conv_nth)
  then have "bounded_by k (max_element proc_score)" using assms(2) by (metis nth_mem)
  then obtain x where x: "max_element proc_score = Fin x" using bnd_Fin by blast
  from tolerance_pos obtain t where t: "tolerance = Fin t" "0 < t" by blast
  have "dless (Fin 0) tolerance" unfolding t(1) using t(2) by simp
  then have "dless (dabs (dsub (proc_score ! j) (max_element proc_score))) tolerance"
    using x j(2) by (simp add: dsub_def)
  then have "j \<in> set (top_positions_m proc_score)"
    using j(1) by (simp add: top_positions_m_def Let_def)
  then show ?thesis by auto
qed

lemma top_positions_m_bound: "j \<in> set (top_positions_m proc_score) \<Longrightarrow> j < length proc_score"
  by (simp add: top_positions_m_def Let_def)

subsection \<open>What a decision in machine arithmetic returns\<close>

lemma greedy_m_returns:
  assumes "proc_num_edges \<noteq> []" "\<forall>l \<in> set proc_num_edges. uint l < 2 ^ 53"
  shows "\<exists>p. p < length proc_num_edges \<and>
           edge_to_proc_greedy_m hash_edge source target src dst bits proc_num_edges usehash userecent
             = Inr (p, place_replica src dst userecent p bits,
                    proc_num_edges[p := proc_num_edges ! p + 1])"
proof -
  let ?sc = "map (greedy_score_m source target (bits src) (bits dst) proc_num_edges usehash)
               [0..<length proc_num_edges]"
  have fin: "\<forall>d \<in> set ?sc. bounded_by 65 d"
    by (simp add: greedy_score_m_bnd [OF assms])
  have ne: "top_positions_m ?sc \<noteq> []" using assms(1) fin by (intro top_positions_m_nonempty) simp
  have bd: "\<forall>p \<in> set (top_positions_m ?sc). p < length proc_num_edges"
    using top_positions_m_bound [of _ ?sc] by auto
  from pick_best_ok [OF ne bd, of hash_edge source target]
  obtain p where "pick_best hash_edge source target (top_positions_m ?sc) (length proc_num_edges) = Inr p"
    "p < length proc_num_edges" by blast
  then show ?thesis using assms(1) by (auto simp: edge_to_proc_greedy_m_def Let_def)
qed

lemma hdrf_m_returns:
  assumes "proc_num_edges \<noteq> []" "\<forall>l \<in> set proc_num_edges. uint l < 2 ^ 53"
    and "uint (degs src_true) + uint (degs dst_true) + 2 < 2 ^ 64"
  shows "\<exists>p. p < length proc_num_edges \<and>
           edge_to_proc_hdrf_m hash_edge source target src dst bits src_true dst_true degs
               proc_num_edges usehash userecent
             = Inr (p, place_replica src dst userecent p bits,
                    (degs(src_true := degs src_true + 1))
                      (dst_true := (degs(src_true := degs src_true + 1)) dst_true + 1),
                    proc_num_edges[p := proc_num_edges ! p + 1])"
proof -
  let ?sc = "map (hdrf_score_m source target (bits src) (bits dst) (degs src_true) (degs dst_true)
                    proc_num_edges usehash) [0..<length proc_num_edges]"
  have fin: "\<forall>d \<in> set ?sc. bounded_by 68 d"
    by (simp add: hdrf_score_m_bnd [OF assms])
  have ne: "top_positions_m ?sc \<noteq> []" using assms(1) fin by (intro top_positions_m_nonempty) simp
  have bd: "\<forall>p \<in> set (top_positions_m ?sc). p < length proc_num_edges"
    using top_positions_m_bound [of _ ?sc] by auto
  from pick_best_ok [OF ne bd, of hash_edge source target]
  obtain p where "pick_best hash_edge source target (top_positions_m ?sc) (length proc_num_edges) = Inr p"
    "p < length proc_num_edges" by blast
  then show ?thesis using assms(1) by (auto simp: edge_to_proc_hdrf_m_def Let_def)
qed

lemma greedy_candidates_m_returns:
  assumes "proc_num_edges \<noteq> []" "candidates \<noteq> []"
    "\<forall>c \<in> set candidates. c < length proc_num_edges"
    "\<forall>l \<in> set proc_num_edges. uint l < 2 ^ 53"
  shows "\<exists>p. p \<in> set candidates \<and>
           edge_to_proc_greedy_candidates_m hash_edge source target src dst bits candidates
               proc_num_edges usehash userecent
             = Inr (p, place_replica src dst userecent p bits,
                    proc_num_edges[p := proc_num_edges ! p + 1])"
proof -
  let ?sc = "map (greedy_score_m source target (bits src) (bits dst) proc_num_edges usehash) candidates"
  let ?top = "map (\<lambda>j. candidates ! j) (top_positions_m ?sc)"
  have fin: "\<forall>d \<in> set ?sc. bounded_by 65 d"
    by (simp add: greedy_score_m_bnd [OF assms(1,4)])
  have "top_positions_m ?sc \<noteq> []" using assms(2) fin by (intro top_positions_m_nonempty) simp
  then have ne: "?top \<noteq> []" by simp
  have sub: "set ?top \<subseteq> set candidates"
    using top_positions_m_bound [of _ ?sc] by auto
  then have bd: "\<forall>p \<in> set ?top. p < length proc_num_edges" using assms(3) by blast
  from pick_best_ok [OF ne bd, of hash_edge source target]
  obtain p where p: "pick_best hash_edge source target ?top (length proc_num_edges) = Inr p"
    "p \<in> set ?top" by blast
  have nb: "\<not> (\<exists>i \<in> set candidates. length proc_num_edges \<le> i)" using assms(3) by auto
  show ?thesis
    using p sub assms(1,2) nb
    unfolding edge_to_proc_greedy_candidates_m_def Let_def
    by (intro exI [of _ p]) (simp only: if_False sum.case, blast)
qed

subsection \<open>A run of the HDRF decider in both directions\<close>

text \<open>
  The roundings that occur in the two calls below.  Each is certified by the exponent \<open>e\<close>
  and the significand \<open>n\<close> of the result: \<open>2^e \<le> x < 2^(e+1)\<close> and \<open>n\<close> is \<open>x / 2^(e-52)\<close>
  rounded to an integer, ties to even.
\<close>

lemma rd0: "round_double (2814749767 / 281474976710656) = Fin (2814749767 / 281474976710656)"
  by (rule round_near [where e = "- 17" and n = 5902958103363584]) (simp_all add: powi_neg powi_nat)

lemma rd1: "round_double (1 / 100000) = Fin (5902958103587057 / 590295810358705651712)"
  by (rule round_near [where e = "- 17" and n = 5902958103587057]) (simp_all add: powi_neg powi_nat)

lemma rd2: "round_double (22517998137 / 2251799813685248) = Fin (22517998137 / 2251799813685248)"
  by (rule round_near [where e = "- 17" and n = 5902958103625728]) (simp_all add: powi_neg powi_nat)

lemma rd3: "round_double (3752999689475413 / 9007199254740992) = Fin (3752999689475413 / 9007199254740992)"
  by (rule round_near [where e = "- 2" and n = 7505999378950826]) (simp_all add: powi_neg powi_nat)

lemma rd4: "round_double (5 / 12) = Fin (7505999378950827 / 18014398509481984)"
  by (rule round_near [where e = "- 2" and n = 7505999378950827]) (simp_all add: powi_neg powi_nat)

lemma rd5: "round_double (10508399130531157 / 18014398509481984) = Fin (2627099782632789 / 4503599627370496)"
  by (rule round_cert [where e = "- 1" and n = 5254199565265578, THEN trans])
     (simp_all add: powi_neg powi_nat rhe_tie_down [where n = 5254199565265578])

lemma rd6: "round_double (7 / 12) = Fin (5254199565265579 / 9007199254740992)"
  by (rule round_near [where e = "- 1" and n = 5254199565265579]) (simp_all add: powi_neg powi_nat)

lemma rd7: "round_double (49999 / 50000) = Fin (9007019110755897 / 9007199254740992)"
  by (rule round_near [where e = "- 1" and n = 9007019110755897]) (simp_all add: powi_neg powi_nat)

lemma rd8: "round_double (99999 / 100000) = Fin (9007109182748445 / 9007199254740992)"
  by (rule round_near [where e = "- 1" and n = 9007109182748445]) (simp_all add: powi_neg powi_nat)

lemma rd9: "round_double (1) = Fin (1)"
  by (rule round_near [where e = "0" and n = 4503599627370496]) (simp_all add: powi_neg powi_nat)

lemma rd10: "round_double (12760198944216405 / 9007199254740992) = Fin (3190049736054101 / 2251799813685248)"
  by (rule round_cert [where e = "0" and n = 6380099472108202, THEN trans])
     (simp_all add: powi_neg powi_nat rhe_tie_down [where n = 6380099472108202])

lemma rd11: "round_double (7130699410003285 / 4503599627370496) = Fin (7130699410003285 / 4503599627370496)"
  by (rule round_near [where e = "0" and n = 7130699410003285]) (simp_all add: powi_neg powi_nat)

lemma rd12: "round_double (21767218054972301 / 9007199254740992) = Fin (5441804513743075 / 2251799813685248)"
  by (rule round_near [where e = "1" and n = 5441804513743075]) (simp_all add: powi_neg powi_nat)

lemma rd13: "round_double (21767308126964849 / 9007199254740992) = Fin (1360456757935303 / 562949953421312)"
  by (rule round_near [where e = "1" and n = 5441827031741212]) (simp_all add: powi_neg powi_nat)

lemma rd14: "round_double (23268417930762467 / 9007199254740992) = Fin (5817104482690617 / 2251799813685248)"
  by (rule round_near [where e = "1" and n = 5817104482690617]) (simp_all add: powi_neg powi_nat)

lemma rd15: "round_double (23268508002755015 / 9007199254740992) = Fin (2908563500344377 / 1125899906842624)"
  by (rule round_near [where e = "1" and n = 5817127000688754]) (simp_all add: powi_neg powi_nat)

lemma rd16: "round_double (18014308437489435 / 4503599627370496) = Fin (4503577109372359 / 1125899906842624)"
  by (rule round_cert [where e = "1" and n = 9007154218744718, THEN trans])
     (simp_all add: powi_neg powi_nat rhe_tie_up [where n = 9007154218744718])

lemma rd17: "round_double (4503577109372359 / 1125899906842624) = Fin (4503577109372359 / 1125899906842624)"
  by (rule round_near [where e = "1" and n = 9007154218744718]) (simp_all add: powi_neg powi_nat)

lemma rd18: "round_double (4503588368371427 / 1125899906842624) = Fin (4503588368371427 / 1125899906842624)"
  by (rule round_near [where e = "1" and n = 9007176736742854]) (simp_all add: powi_neg powi_nat)

lemma rd19: "round_double (18014353473485709 / 4503599627370496) = Fin (4503588368371427 / 1125899906842624)"
  by (rule round_cert [where e = "1" and n = 9007176736742854, THEN trans])
     (simp_all add: powi_neg powi_nat rhe_tie_down [where n = 9007176736742854])

lemma rd20: "round_double (9007176736742855 / 2251799813685248) = Fin (9007176736742855 / 2251799813685248)"
  by (rule round_near [where e = "1" and n = 9007176736742855]) (simp_all add: powi_neg powi_nat)

lemma rd21: "round_double (5) = Fin (5)"
  by (rule round_near [where e = "2" and n = 5629499534213120]) (simp_all add: powi_neg powi_nat)

lemma rd22: "round_double (7) = Fin (7)"
  by (rule round_near [where e = "2" and n = 7881299347898368]) (simp_all add: powi_neg powi_nat)

lemma rd23: "round_double (12) = Fin (12)"
  by (rule round_near [where e = "3" and n = 6755399441055744]) (simp_all add: powi_neg powi_nat)

lemma rd24: "round_double (99998) = Fin (99998)"
  by (rule round_near [where e = "16" and n = 6871810234646528]) (simp_all add: powi_neg powi_nat)

lemma rd25: "round_double (99999) = Fin (99999)"
  by (rule round_near [where e = "16" and n = 6871878954123264]) (simp_all add: powi_neg powi_nat)

lemma rd26: "round_double (100000) = Fin (100000)"
  by (rule round_near [where e = "16" and n = 6871947673600000]) (simp_all add: powi_neg powi_nat)

lemma rd27: "round_double (100001) = Fin (100001)"
  by (rule round_near [where e = "16" and n = 6872016393076736]) (simp_all add: powi_neg powi_nat)

lemmas rd_facts = rd0 rd1 rd2 rd3 rd4 rd5 rd6 rd7 rd8 rd9 rd10 rd11 rd12 rd13 rd14 rd15 rd16 rd17 rd18 rd19 rd20 rd21 rd22 rd23 rd24 rd25 rd26 rd27

lemma tolerance_val: "tolerance = Fin (5902958103587057 / 590295810358705651712)"
  by (simp add: tolerance_def rd1)

lemma upt3: "[0..<3] = [0, 1, 2]"
  by (simp add: upt_rec)

lemma loads_min_max:
  "Min (set [1, 2, 100000 :: 64 word]) = 1" "Max (set [1, 2, 100000 :: 64 word]) = 100000"
  by simp_all

lemma scores_forward:
  "map (hdrf_score_m 1 2 {0, 1} {0, 1} 4 6 [1, 2, 100000] False) [0..<3]
     = [Fin (9007176736742855 / 2251799813685248), Fin (4503577109372359 / 1125899906842624), Fin 0]"
  by (simp add: upt3 hdrf_score_m_def bal_m_def Let_def degree_presence_def double_of_size_t_def
        dsub_def round_double_minus rd_facts)

lemma scores_swapped:
  "map (hdrf_score_m 2 1 {0, 1} {0, 1} 6 4 [1, 2, 100000] False) [0..<3]
     = [Fin (4503588368371427 / 1125899906842624), Fin (4503577109372359 / 1125899906842624), Fin 0]"
  by (simp add: upt3 hdrf_score_m_def bal_m_def Let_def degree_presence_def double_of_size_t_def
        dsub_def round_double_minus rd_facts)

lemma top_forward:
  "top_positions_m [Fin (9007176736742855 / 2251799813685248),
                    Fin (4503577109372359 / 1125899906842624), Fin 0] = [0]"
  by (simp add: top_positions_m_def max_element_def Let_def upt3 tolerance_val dsub_def
        round_double_minus rd_facts)

lemma top_swapped:
  "top_positions_m [Fin (4503588368371427 / 1125899906842624),
                    Fin (4503577109372359 / 1125899906842624), Fin 0] = [0, 1]"
  by (simp add: top_positions_m_def max_element_def Let_def upt3 tolerance_val dsub_def
        round_double_minus rd_facts)

lemma hdrf_m_machine:
  "map_sum id fst (edge_to_proc_hdrf_m hash_edge u v ru rv bits du dv degs loads uh ur) =
     (if loads = [] then Inl EmptyRange
      else pick_best hash_edge u v
             (top_positions_m (map (hdrf_score_m u v (bits ru) (bits rv) (degs du) (degs dv) loads uh)
                               [0..<length loads]))
             (length loads))"
proof (cases "loads = []")
  case True
  then show ?thesis by (simp add: edge_to_proc_hdrf_m_def)
next
  case False
  show ?thesis
  proof (cases "pick_best hash_edge u v
             (top_positions_m (map (hdrf_score_m u v (bits ru) (bits rv) (degs du) (degs dv) loads uh)
                               [0..<length loads]))
             (length loads)")
    case (Inl e)
    then show ?thesis using False by (simp add: edge_to_proc_hdrf_m_def Let_def)
  next
    case (Inr p)
    then show ?thesis using False by (simp add: edge_to_proc_hdrf_m_def Let_def)
  qed
qed

text \<open>
  C4 (symmetry).  The HDRF decider is not symmetric.  With three machines of loads 1, 2
  and 100000, both vertices replicated on machines 0 and 1, and true degrees 4 and 6, the
  call for the edge \<open>(1, 2)\<close> returns machine 0 and the call with the roles of source and
  target swapped returns machine 1.  The two score vectors differ in the last bit of the
  score of machine 0, since \<open>bal + new_sd + new_td\<close> adds the two terms to \<open>bal\<close> one after
  the other, and the score of machine 1 is within \<open>1e-5\<close> of the maximum only in the swapped
  call.  The stores are \<open>fst\<close>: a reference \<open>(x, b)\<close> holds \<open>x\<close>, so that the references of
  the two vertices are different objects.
\<close>
theorem hdrf_swap_changes_machine:
  "map_sum id fst (edge_to_proc_hdrf_m fst 1 2 ({0, 1}, False) ({0, 1}, True) fst
                     (4, False) (6, True) fst [1, 2, 100000] False False) = Inr 0 \<and>
   map_sum id fst (edge_to_proc_hdrf_m fst 2 1 ({0, 1}, True) ({0, 1}, False) fst
                     (6, True) (4, False) fst [1, 2, 100000] False False) = Inr 1"
proof -
  have len: "length [1, 2, 100000 :: 64 word] = 3" by simp
  have ne: "([1, 2, 100000 :: 64 word] = []) = False" by simp
  have p1: "pick_best fst 1 2 [0] 3 = Inr 0" by (simp add: pick_best_def edge_pair_def)
  have p2: "pick_best fst 2 1 [0, 1] 3 = Inr 1" by (simp add: pick_best_def edge_pair_def)
  show ?thesis
    by (simp only: hdrf_m_machine len ne if_False fst_conv scores_forward scores_swapped
          top_forward top_swapped p1 p2 simp_thms)
qed

subsection \<open>Symmetry of the random and greedy deciders\<close>

text \<open>
  The two random deciders and both greedy overloads return the same machine (or the same
  error) when the roles of source and target are swapped: the hashed pair is canonical, and
  the greedy score adds the integer \<open>(sd > 0) + (td > 0)\<close> to \<open>bal\<close> in a single addition.
\<close>

lemma greedy_score_m_swap:
  "greedy_score_m u v bu bv loads uh i = greedy_score_m v u bv bu loads uh i"
  by (simp add: greedy_score_m_def Let_def add.commute)

lemma greedy_m_machine:
  "map_sum id fst (edge_to_proc_greedy_m hash_edge u v ru rv bits loads uh ur) =
     (if loads = [] then Inl EmptyRange
      else pick_best hash_edge u v
             (top_positions_m (map (greedy_score_m u v (bits ru) (bits rv) loads uh) [0..<length loads]))
             (length loads))"
proof (cases "loads = []")
  case True
  then show ?thesis by (simp add: edge_to_proc_greedy_m_def)
next
  case False
  show ?thesis
  proof (cases "pick_best hash_edge u v
             (top_positions_m (map (greedy_score_m u v (bits ru) (bits rv) loads uh) [0..<length loads]))
             (length loads)")
    case (Inl e)
    then show ?thesis using False by (simp add: edge_to_proc_greedy_m_def Let_def)
  next
    case (Inr p)
    then show ?thesis using False by (simp add: edge_to_proc_greedy_m_def Let_def)
  qed
qed

lemma greedy_candidates_m_machine:
  "map_sum id fst (edge_to_proc_greedy_candidates_m hash_edge u v ru rv bits candidates loads uh ur) =
     (if loads = [] then Inl EmptyRange
      else if \<exists>i \<in> set candidates. length loads \<le> i then Inl OutOfRange
      else if candidates = [] then Inl EmptyRange
      else pick_best hash_edge u v
             (map (\<lambda>j. candidates ! j)
                (top_positions_m (map (greedy_score_m u v (bits ru) (bits rv) loads uh) candidates)))
             (length loads))"
proof (cases "loads = [] \<or> (\<exists>i \<in> set candidates. length loads \<le> i) \<or> candidates = []")
  case True
  then show ?thesis by (auto simp: edge_to_proc_greedy_candidates_m_def)
next
  case False
  show ?thesis
  proof (cases "pick_best hash_edge u v
             (map (\<lambda>j. candidates ! j)
                (top_positions_m (map (greedy_score_m u v (bits ru) (bits rv) loads uh) candidates)))
             (length loads)")
    case (Inl e)
    then show ?thesis using False by (simp add: edge_to_proc_greedy_candidates_m_def Let_def)
  next
    case (Inr p)
    then show ?thesis using False by (simp add: edge_to_proc_greedy_candidates_m_def Let_def)
  qed
qed

lemma random_and_greedy_symmetric_m:
  "edge_to_proc_random hash_edge u v numprocs = edge_to_proc_random hash_edge v u numprocs \<and>
   edge_to_proc_random_candidates hash_edge u v candidates
     = edge_to_proc_random_candidates hash_edge v u candidates \<and>
   map_sum id fst (edge_to_proc_greedy_m hash_edge u v ru rv bits loads uh ur)
     = map_sum id fst (edge_to_proc_greedy_m hash_edge v u rv ru bits loads uh ur) \<and>
   map_sum id fst (edge_to_proc_greedy_candidates_m hash_edge u v ru rv bits candidates loads uh ur)
     = map_sum id fst (edge_to_proc_greedy_candidates_m hash_edge v u rv ru bits candidates loads uh ur)"
proof -
  have gs: "greedy_score_m u v (bits ru) (bits rv) loads uh
              = greedy_score_m v u (bits rv) (bits ru) loads uh"
    by (rule ext) (rule greedy_score_m_swap)
  have 1: "edge_to_proc_random hash_edge u v numprocs = edge_to_proc_random hash_edge v u numprocs"
    by (simp add: edge_to_proc_random_def edge_pair_commute [of u v])
  have 2: "edge_to_proc_random_candidates hash_edge u v candidates
     = edge_to_proc_random_candidates hash_edge v u candidates"
    by (simp add: edge_to_proc_random_candidates_def edge_pair_commute [of u v])
  have 3: "map_sum id fst (edge_to_proc_greedy_m hash_edge u v ru rv bits loads uh ur)
     = map_sum id fst (edge_to_proc_greedy_m hash_edge v u rv ru bits loads uh ur)"
    by (simp only: greedy_m_machine gs pick_best_commute [of hash_edge u v])
  have 4: "map_sum id fst (edge_to_proc_greedy_candidates_m hash_edge u v ru rv bits candidates loads uh ur)
     = map_sum id fst (edge_to_proc_greedy_candidates_m hash_edge v u rv ru bits candidates loads uh ur)"
    by (simp only: greedy_candidates_m_machine gs pick_best_commute [of hash_edge u v])
  from 1 2 3 4 show ?thesis by blast
qed

subsection \<open>Range of the decisions\<close>

lemma dadd_NaN [simp]: "dadd a NaN = NaN" "dadd NaN a = NaN"
  by (cases a; simp)+

lemma round_tie_2p53: "round_double 9007199254740993 = Fin 9007199254740992"
  by (rule round_cert [where e = 53 and n = 4503599627370496, THEN trans])
     (simp_all add: powi_neg powi_nat rhe_tie_down [where n = 4503599627370496])

lemma round_2p53: "round_double 9007199254740992 = Fin 9007199254740992"
  by (rule round_near [where e = 53 and n = 4503599627370496]) (simp_all add: powi_neg powi_nat)

lemma greedy_scores_nan:
  "map (greedy_score_m 1 2 {} {} [9007199254740992, 9007199254740992] False) [0..<2] = [NaN, NaN]"
  by (simp add: upt2 greedy_score_m_def bal_m_def Let_def degree_presence_def double_of_size_t_def
        dsub_def round_tie_2p53 round_2p53)

lemma top_nan: "top_positions_m [NaN, NaN] = []"
  by (simp add: top_positions_m_def max_element_def Let_def upt2 dsub_def)

lemma hdrf_scores_nan:
  "map (hdrf_score_m 1 2 {0, 1} {0, 1} 18446744073709551615 18446744073709551615 [0, 0] False)
       [0..<2] = [NaN, NaN]"
  by (simp add: upt2 hdrf_score_m_def Let_def degree_presence_def double_of_size_t_def dsub_def)

text \<open>
  C2 (range safety), as stated, fails: a non-empty machine set, and a non-empty candidate
  list for the restricted random form, do not bound the result.  The restricted random
  form returns candidate 7 where there are four machines.  With two machines of load
  \<open>2^53\<close> each, \<open>(1.0 + maxedges) - minedges\<close> is \<open>0.0\<close>, every greedy score is NaN, the
  tied-top set is empty and \<open>hash % top_procs.size()\<close> is a division by zero.  With both
  true degrees at \<open>2^64 - 1\<close>, \<open>degree_u\<close>, \<open>degree_v\<close> and \<open>SUM\<close> wrap to 0, \<open>fu\<close> and \<open>fv\<close>
  are NaN, and the HDRF decider fails in the same way.
\<close>
theorem range_fails_outside_bounds:
  "edge_to_proc_random_candidates fst 10 7 [7] = Inr 7 \<and>
   \<not> (7::nat) < length [0, 0, 0, 0 :: 64 word] \<and>
   edge_to_proc_greedy_m fst 1 2 ({}, False) ({}, True) fst
       [9007199254740992, 9007199254740992] False False = Inl ModuloByZero \<and>
   edge_to_proc_hdrf_m fst 1 2 ({0, 1}, False) ({0, 1}, True) fst
       (18446744073709551615, False) (18446744073709551615, True) fst [0, 0] False False
     = Inl ModuloByZero"
proof -
  have a: "edge_to_proc_random_candidates fst 10 7 [7] = Inr 7"
    by (simp add: edge_to_proc_random_candidates_def)
  have pb: "pick_best fst 1 2 [] 2 = Inl ModuloByZero" by (simp add: pick_best_def)
  have len: "length [9007199254740992, 9007199254740992 :: 64 word] = 2"
    "length [0, 0 :: 64 word] = 2" by simp_all
  have ne: "([9007199254740992, 9007199254740992 :: 64 word] = []) = False"
    "([0, 0 :: 64 word] = []) = False" by simp_all
  have b: "edge_to_proc_greedy_m fst 1 2 ({}, False) ({}, True) fst
       [9007199254740992, 9007199254740992] False False = Inl ModuloByZero"
    by (simp only: edge_to_proc_greedy_m_def Let_def len ne if_False fst_conv greedy_scores_nan
          top_nan pb sum.case)
  have c: "edge_to_proc_hdrf_m fst 1 2 ({0, 1}, False) ({0, 1}, True) fst
       (18446744073709551615, False) (18446744073709551615, True) fst [0, 0] False False
     = Inl ModuloByZero"
    by (simp only: edge_to_proc_hdrf_m_def Let_def len ne if_False fst_conv hdrf_scores_nan
          top_nan pb sum.case)
  from a b c show ?thesis by simp
qed

text \<open>
  C2 (range safety), amended.  With a non-empty load vector whose counters are all below
  \<open>2^53\<close>, for HDRF two true-degree counters for which \<open>degree_u + degree_v\<close> does not wrap
  around, and for the forms restricted to a candidate list a non-empty list of machine ids
  below \<open>numprocs\<close>, every decider (random, restricted random, greedy, restricted greedy,
  HDRF) returns a machine id below \<open>numprocs\<close>: the tied-top set is never empty, and neither
  \<open>ASSERT_LT(best_proc, numprocs)\<close> nor any other error branch is taken.
\<close>
theorem decider_range:
  assumes "proc_num_edges \<noteq> []" and "candidates \<noteq> []"
    and "\<forall>c \<in> set candidates. c < length proc_num_edges"
    and "\<forall>l \<in> set proc_num_edges. uint l < 2 ^ 53"
    and "uint (degs src_true) + uint (degs dst_true) + 2 < 2 ^ 64"
  shows "(\<exists>p. edge_to_proc_random hash_edge source target (length proc_num_edges) = Inr p \<and>
              p < length proc_num_edges) \<and>
         (\<exists>p. edge_to_proc_random_candidates hash_edge source target candidates = Inr p \<and>
              p < length proc_num_edges) \<and>
         (\<exists>p bits' loads'.
              edge_to_proc_greedy_m hash_edge source target src dst bits proc_num_edges
                usehash userecent = Inr (p, bits', loads') \<and> p < length proc_num_edges) \<and>
         (\<exists>p bits' loads'.
              edge_to_proc_greedy_candidates_m hash_edge source target src dst bits candidates
                proc_num_edges usehash userecent = Inr (p, bits', loads') \<and>
              p < length proc_num_edges) \<and>
         (\<exists>p bits' degs' loads'.
              edge_to_proc_hdrf_m hash_edge source target src dst bits src_true dst_true degs
                proc_num_edges usehash userecent = Inr (p, bits', degs', loads') \<and>
              p < length proc_num_edges) \<and>
         top_positions_m (map (greedy_score_m source target (bits src) (bits dst) proc_num_edges
                               usehash) [0..<length proc_num_edges]) \<noteq> [] \<and>
         top_positions_m (map (hdrf_score_m source target (bits src) (bits dst) (degs src_true)
                               (degs dst_true) proc_num_edges usehash)
                          [0..<length proc_num_edges]) \<noteq> []"
proof -
  have r1: "\<exists>p. edge_to_proc_random hash_edge source target (length proc_num_edges) = Inr p \<and>
              p < length proc_num_edges"
    using assms(1) by (simp add: edge_to_proc_random_def)
  have "candidates ! (hash_edge (edge_pair source target) mod length candidates) \<in> set candidates"
    using assms(2) by simp
  then have r2: "\<exists>p. edge_to_proc_random_candidates hash_edge source target candidates = Inr p \<and>
              p < length proc_num_edges"
    using assms(2,3) by (simp add: edge_to_proc_random_candidates_def)
  have r3: "\<exists>p bits' loads'.
              edge_to_proc_greedy_m hash_edge source target src dst bits proc_num_edges
                usehash userecent = Inr (p, bits', loads') \<and> p < length proc_num_edges"
    using greedy_m_returns [OF assms(1,4)] by metis
  have r4: "\<exists>p bits' loads'.
              edge_to_proc_greedy_candidates_m hash_edge source target src dst bits candidates
                proc_num_edges usehash userecent = Inr (p, bits', loads') \<and>
              p < length proc_num_edges"
    using greedy_candidates_m_returns [OF assms(1,2,3,4)] assms(3) by metis
  have r5: "\<exists>p bits' degs' loads'.
              edge_to_proc_hdrf_m hash_edge source target src dst bits src_true dst_true degs
                proc_num_edges usehash userecent = Inr (p, bits', degs', loads') \<and>
              p < length proc_num_edges"
    using hdrf_m_returns [where degs = degs and src_true = src_true and dst_true = dst_true,
        OF assms(1,4,5)] by metis
  have r6: "top_positions_m (map (greedy_score_m source target (bits src) (bits dst) proc_num_edges
                               usehash) [0..<length proc_num_edges]) \<noteq> []"
    using assms(1) by (intro top_positions_m_nonempty [where k = 65])
      (simp_all add: greedy_score_m_bnd [OF assms(1,4)])
  have r7: "top_positions_m (map (hdrf_score_m source target (bits src) (bits dst) (degs src_true)
                               (degs dst_true) proc_num_edges usehash)
                          [0..<length proc_num_edges]) \<noteq> []"
    using assms(1) by (intro top_positions_m_nonempty [where k = 68])
      (simp_all add: hdrf_score_m_bnd [OF assms(1,4,5)])
  from r1 r2 r3 r4 r5 r6 r7 show ?thesis by blast
qed

theorem decider_range_witness:
  "(\<exists>p. edge_to_proc_random fst 1 2 (length [0 :: 64 word, 0]) = Inr p \<and> p < length [0 :: 64 word, 0]) \<and>
   (\<exists>p. edge_to_proc_random_candidates fst 1 2 [1] = Inr p \<and> p < length [0 :: 64 word, 0]) \<and>
   (\<exists>p bits' loads'.
        edge_to_proc_greedy_m fst 1 2 (1::nat) 2 (\<lambda>_. {}) [0, 0] False True = Inr (p, bits', loads') \<and>
        p < length [0 :: 64 word, 0]) \<and>
   (\<exists>p bits' loads'.
        edge_to_proc_greedy_candidates_m fst 1 2 (1::nat) 2 (\<lambda>_. {}) [1] [0, 0] False True
          = Inr (p, bits', loads') \<and> p < length [0 :: 64 word, 0]) \<and>
   (\<exists>p bits' degs' loads'.
        edge_to_proc_hdrf_m fst 1 2 (1::nat) 2 (\<lambda>_. {}) (1::nat) 2 (\<lambda>_. 0) [0, 0] False True
          = Inr (p, bits', degs', loads') \<and> p < length [0 :: 64 word, 0])"
proof -
  have h1: "[0 :: 64 word, 0] \<noteq> []" by simp
  have h2: "[1::nat] \<noteq> []" by simp
  have h3: "\<forall>c \<in> set [1::nat]. c < length [0 :: 64 word, 0]" by simp
  have h4: "\<forall>l \<in> set [0 :: 64 word, 0]. uint l < 2 ^ 53" by simp
  have h5: "uint ((\<lambda>_. 0 :: 64 word) (1::nat)) + uint ((\<lambda>_. 0 :: 64 word) (2::nat)) + 2 < 2 ^ 64"
    by simp
  from decider_range [where degs = "\<lambda>_. 0" and src_true = "1::nat" and dst_true = "2::nat"
      and hash_edge = fst and source = 1 and target = 2
      and src = "1::nat" and dst = 2 and bits = "\<lambda>_. {}" and usehash = False and userecent = True,
      OF h1 h2 h3 h4 h5]
  show ?thesis by blast
qed

section \<open>Cuckoo map: proofs\<close>

subsection \<open>Hash positions\<close>

lemma compute_hash_less: "0 < dlen \<Longrightarrow> compute_hash dlen k s < dlen"
  by (simp add: compute_hash_def)

lemma candidate_slots_less:
  "0 < datalen m \<Longrightarrow> i \<in> set (candidate_slots m k) \<Longrightarrow> i < datalen m"
  by (auto simp: candidate_slots_def compute_hash_less)

lemma candidate_slots_mem:
  "j < CuckooK \<Longrightarrow> compute_hash (datalen m) (hashfun m k) j \<in> set (candidate_slots m k)"
  by (simp add: candidate_slots_def)

lemma find_SomeD: "List.find P xs = Some x \<Longrightarrow> x \<in> set xs \<and> P x"
  by (auto simp: find_Some_iff)

lemma find_NoneD: "List.find P xs = None \<Longrightarrow> x \<in> set xs \<Longrightarrow> \<not> P x"
  by (auto simp: find_None_iff)

lemma find_append_skip: "\<forall>x \<in> set xs. \<not> P x \<Longrightarrow> List.find P (xs @ ys) = List.find P ys"
  by (induction xs) simp_all

subsection \<open>Entries under an update of one slot\<close>

lemma mset_filter_update:
  "i < length xs \<Longrightarrow>
     mset (filter P (xs[i := v])) + (if P (xs ! i) then {#xs ! i#} else {#})
       = mset (filter P xs) + (if P v then {#v#} else {#})"
proof (induction xs arbitrary: i)
  case Nil
  then show ?case by simp
next
  case (Cons x xs)
  show ?case
  proof (cases i)
    case 0
    then show ?thesis by simp
  next
    case (Suc j)
    then have "j < length xs" using Cons.prems by simp
    from Cons.IH [OF this] show ?thesis using Suc by (auto split: if_splits)
  qed
qed

lemma live_update_free:
  assumes "i < length (data m)" "fst (data m ! i) = illegalkey m" "fst v \<noteq> illegalkey m"
  shows "mset (live (m\<lparr>data := (data m)[i := v]\<rparr>)) = add_mset v (mset (live m))"
  using mset_filter_update [OF assms(1), of "\<lambda>e. fst e \<noteq> illegalkey m" v] assms(2,3)
  by (simp add: live_def)

lemma live_update_evict:
  assumes "i < length (data m)" "fst (data m ! i) \<noteq> illegalkey m" "fst v \<noteq> illegalkey m"
  shows "add_mset (data m ! i) (mset (live (m\<lparr>data := (data m)[i := v]\<rparr>)))
           = add_mset v (mset (live m))"
  using mset_filter_update [OF assms(1), of "\<lambda>e. fst e \<noteq> illegalkey m" v] assms(2,3)
  by (simp add: live_def)

lemma live_update_clear:
  assumes "i < length (data m)" "fst (data m ! i) \<noteq> illegalkey m"
  shows "add_mset (data m ! i) (mset (live (m\<lparr>data := (data m)[i := (illegalkey m, x)]\<rparr>)))
           = mset (live m)"
  using mset_filter_update [OF assms(1), of "\<lambda>e. fst e \<noteq> illegalkey m" "(illegalkey m, x)"] assms(2)
  by (simp add: live_def)

lemma live_drng [simp]: "live (m\<lparr>drng := g\<rparr>) = live m"
  by (simp add: live_def)

lemma live_numel [simp]: "live (m\<lparr>numel := g\<rparr>) = live m"
  by (simp add: live_def)

lemma live_stash [simp]: "live (m\<lparr>stash := g\<rparr>) = live m"
  by (simp add: live_def)

lemma candidate_slots_data [simp]: "candidate_slots (m\<lparr>data := d\<rparr>) = candidate_slots m"
  by (rule ext) (simp add: candidate_slots_def)

lemma candidate_slots_drng [simp]: "candidate_slots (m\<lparr>drng := d\<rparr>) = candidate_slots m"
  by (rule ext) (simp add: candidate_slots_def)

lemma candidate_slots_numel [simp]: "candidate_slots (m\<lparr>numel := d\<rparr>) = candidate_slots m"
  by (rule ext) (simp add: candidate_slots_def)

lemma candidate_slots_stash [simp]: "candidate_slots (m\<lparr>stash := d\<rparr>) = candidate_slots m"
  by (rule ext) (simp add: candidate_slots_def)

lemma misplaced_place:
  assumes "idx \<in> set (candidate_slots m (fst v))"
  shows "misplaced (m\<lparr>data := (data m)[idx := v]\<rparr>) \<subseteq> misplaced m - {idx}"
proof
  fix i assume "i \<in> misplaced (m\<lparr>data := (data m)[idx := v]\<rparr>)"
  then show "i \<in> misplaced m - {idx}"
    using assms by (cases "i = idx") (auto simp: misplaced_def)
qed

lemma misplaced_clear:
  "misplaced (m\<lparr>data := (data m)[i := (illegalkey m, x)]\<rparr>) \<subseteq> misplaced m - {i}"
proof
  fix j assume "j \<in> misplaced (m\<lparr>data := (data m)[i := (illegalkey m, x)]\<rparr>)"
  then show "j \<in> misplaced m - {i}"
    by (cases "j = i") (auto simp: misplaced_def)
qed

lemma misplaced_drng [simp]: "misplaced (m\<lparr>drng := g\<rparr>) = misplaced m"
  by (simp add: misplaced_def)

lemma misplaced_numel [simp]: "misplaced (m\<lparr>numel := g\<rparr>) = misplaced m"
  by (simp add: misplaced_def)

lemma misplaced_stash [simp]: "misplaced (m\<lparr>stash := g\<rparr>) = misplaced m"
  by (simp add: misplaced_def)

lemma finite_misplaced: "finite (misplaced m)"
  by (simp add: misplaced_def)

lemma cm_entries_numel [simp]: "cm_entries (m\<lparr>numel := g\<rparr>) = cm_entries m"
  by (simp add: cm_entries_def)

lemma cm_entries_drng [simp]: "cm_entries (m\<lparr>drng := g\<rparr>) = cm_entries m"
  by (simp add: cm_entries_def)

lemma cm_keys_numel [simp]: "cm_keys (m\<lparr>numel := g\<rparr>) = cm_keys m"
  by (simp add: cm_keys_def)

lemma cm_keys_drng [simp]: "cm_keys (m\<lparr>drng := g\<rparr>) = cm_keys m"
  by (simp add: cm_keys_def)

lemma live_key_in_keys: "e \<in> set (live m) \<Longrightarrow> fst e \<in> set (cm_keys m)"
  by (simp add: cm_keys_def cm_entries_def)

lemma stash_key_in_keys: "e \<in> set (stash m) \<Longrightarrow> fst e \<in> set (cm_keys m)"
  by (simp add: cm_keys_def cm_entries_def)

lemma slot_key_in_keys:
  "i < length (data m) \<Longrightarrow> fst (data m ! i) \<noteq> illegalkey m \<Longrightarrow> fst (data m ! i) \<in> set (cm_keys m)"
  by (rule live_key_in_keys) (simp add: live_def)

subsection \<open>The random walk of \<open>do_insert\<close>\<close>

lemma insert_walk_free:
  assumes "List.find (\<lambda>idx. fst (data m ! idx) = illegalkey m) (candidate_slots m (fst v)) = Some idx"
  shows "insert_walk (Suc c) m v ip
           = (vec_iterator (track ip idx), m\<lparr>data := (data m)[idx := v]\<rparr>)"
  using assms by (cases ip) (simp_all add: candidate_slots_def Let_def track_def)

lemma insert_walk_evict:
  assumes "List.find (\<lambda>idx. fst (data m ! idx) = illegalkey m) (candidate_slots m (fst v)) = None"
    and "idx = compute_hash (datalen m) (hashfun m (fst v)) (fst (kranddist m (drng m)) mod CuckooK)"
    and "fst (data m ! idx) \<noteq> illegalkey m"
  shows "insert_walk (Suc c) m v ip
           = insert_walk c (m\<lparr>drng := snd (kranddist m (drng m)), data := (data m)[idx := v]\<rparr>)
               (data m ! idx) (track ip idx)"
  using assms by (cases ip) (simp_all add: candidate_slots_def Let_def track_def)

lemma cm_keys_mset: "mset (cm_keys m) = image_mset fst (mset (cm_entries m))"
  by (simp add: cm_keys_def)

lemma insert_walk_spec:
  assumes "datalen m = length (data m)" "0 < datalen m" "fst v \<noteq> illegalkey m"
    and "distinct (fst v # cm_keys m)" "illegalkey m \<notin> set (map fst (stash m))"
    and "tracked m v ip e0"
    and "insert_walk c m v ip = (it, m')"
  shows "walk_post m v e0 it m'"
  using assms
proof (induction c arbitrary: m v ip)
  case 0
  have nk: "fst v \<notin> set (map fst (stash m))"
    using "0.prems"(4) by (auto simp: cm_keys_def cm_entries_def)
  then have si: "stash_insert (stash m) v = stash m @ [v]"
    by (simp add: stash_insert_def)
  have m': "m' = m\<lparr>stash := stash m @ [v]\<rparr>"
    and it: "it = (case ip of None \<Rightarrow> StashIter (Some (fst v)) | Some p \<Rightarrow> VecIter p)"
    using "0.prems"(7) by (cases ip; simp add: si Let_def)+
  have d: "iter_deref m' it = Some e0"
  proof (cases ip)
    case None
    have "\<forall>x \<in> set (stash m). \<not> fst x = fst v"
      using nk by (metis image_eqI set_map)
    then have "List.find (\<lambda>e. fst e = fst v) (stash m @ [v]) = Some v"
      by (simp add: find_append_skip)
    then show ?thesis using None "0.prems"(6) by (simp add: it m' iter_deref_def tracked_def)
  next
    case (Some p)
    then show ?thesis using "0.prems"(1,6) by (simp add: it m' iter_deref_def tracked_def)
  qed
  show ?case
    unfolding walk_post_def
    using d "0.prems"(3,5) by (simp add: m' cm_entries_def same_params_def)
next
  case (Suc c)
  let ?cs = "candidate_slots m (fst v)"
  let ?d = "data m"
  show ?case
  proof (cases "List.find (\<lambda>idx. fst (?d ! idx) = illegalkey m) ?cs")
    case (Some idx)
    from find_SomeD [OF Some] have idx: "idx \<in> set ?cs" "fst (?d ! idx) = illegalkey m" by auto
    then have lt: "idx < length ?d"
      using candidate_slots_less [OF Suc.prems(2)] Suc.prems(1) by auto
    from Suc.prems(7) insert_walk_free [OF Some]
    have m': "m' = m\<lparr>data := ?d[idx := v]\<rparr>" and it: "it = vec_iterator (track ip idx)"
      by simp_all
    have e: "mset (cm_entries m') = add_mset v (mset (cm_entries m))"
      using live_update_free [OF lt idx(2) Suc.prems(3)] by (simp add: m' cm_entries_def)
    have mp: "misplaced m' \<subseteq> misplaced m"
      using misplaced_place [OF idx(1)] by (auto simp: m')
    have d: "iter_deref m' it = Some e0"
    proof (cases ip)
      case None
      then show ?thesis
        using lt Suc.prems(1,6) by (simp add: it m' track_def vec_iterator_def iter_deref_def tracked_def)
    next
      case (Some p)
      then have p: "p < length ?d" "?d ! p = e0" "fst e0 \<noteq> illegalkey m"
        using Suc.prems(6) by (simp_all add: tracked_def)
      then have "p \<noteq> idx" using idx(2) by auto
      then show ?thesis
        using Some p Suc.prems(1) by (simp add: it m' track_def vec_iterator_def iter_deref_def)
    qed
    show ?thesis
      unfolding walk_post_def
      using e mp d Suc.prems(5) by (simp add: m' same_params_def)
  next
    case None
    define idx where "idx = compute_hash (datalen m) (hashfun m (fst v))
                              (fst (kranddist m (drng m)) mod CuckooK)"
    have "fst (kranddist m (drng m)) mod CuckooK < CuckooK" by (simp add: CuckooK_def)
    then have idx: "idx \<in> set ?cs" unfolding idx_def by (rule candidate_slots_mem)
    then have occ: "fst (?d ! idx) \<noteq> illegalkey m" using find_NoneD [OF None] by auto
    have lt: "idx < length ?d"
      using candidate_slots_less [OF Suc.prems(2) idx] Suc.prems(1) by simp
    let ?m2 = "m\<lparr>drng := snd (kranddist m (drng m)), data := ?d[idx := v]\<rparr>"
    let ?tmp = "?d ! idx"
    from Suc.prems(7) insert_walk_evict [OF None idx_def occ]
    have rec: "insert_walk c ?m2 ?tmp (track ip idx) = (it, m')" by simp
    have lv: "add_mset ?tmp (mset (live ?m2)) = add_mset v (mset (live m))"
      using live_update_evict [OF lt occ Suc.prems(3)] by (simp add: live_def)
    then have e2: "add_mset ?tmp (mset (cm_entries ?m2)) = add_mset v (mset (cm_entries m))"
      by (simp add: cm_entries_def)
    then have "image_mset fst (add_mset ?tmp (mset (cm_entries ?m2)))
                 = image_mset fst (add_mset v (mset (cm_entries m)))" by simp
    then have "mset (fst ?tmp # cm_keys ?m2) = mset (fst v # cm_keys m)"
      by (simp add: cm_keys_mset)
    then have dist: "distinct (fst ?tmp # cm_keys ?m2)"
      using Suc.prems(4) mset_eq_imp_distinct_iff by blast
    have tr: "tracked ?m2 ?tmp (track ip idx) e0"
    proof (cases ip)
      case None
      then show ?thesis using lt Suc.prems(3,6) by (simp add: tracked_def track_def)
    next
      case (Some p)
      then show ?thesis using lt Suc.prems(6) by (auto simp: tracked_def track_def)
    qed
    have "walk_post ?m2 ?tmp e0 it m'"
      using Suc.prems(1,2,5) occ dist tr rec
      by (intro Suc.IH) simp_all
    moreover have "misplaced ?m2 \<subseteq> misplaced m"
      using misplaced_place [OF idx, of ] by (auto simp: misplaced_def)
    ultimately show ?thesis
      unfolding walk_post_def using e2 by (auto simp: same_params_def)
  qed
qed

subsection \<open>Partial correctness of insertion and rehashing\<close>

lemma same_params_refl [simp]: "same_params m m"
  by (simp add: same_params_def)

lemma same_params_trans: "same_params a b \<Longrightarrow> same_params b c \<Longrightarrow> same_params a c"
  by (simp add: same_params_def)

lemma re_post_refl: "cm_inv m \<Longrightarrow> misplaced m = {} \<Longrightarrow> re_post m m"
  by (simp add: re_post_def)

lemma re_post_trans: "re_post a b \<Longrightarrow> re_post b c \<Longrightarrow> re_post a c"
  by (auto simp: re_post_def intro: same_params_trans)

lemma distinct_keys_mset:
  "mset (cm_entries m') = mset (cm_entries m) \<Longrightarrow> distinct (cm_keys m') = distinct (cm_keys m)"
proof -
  assume "mset (cm_entries m') = mset (cm_entries m)"
  then have "mset (cm_keys m') = mset (cm_keys m)" by (simp add: cm_keys_mset)
  then show ?thesis by (rule mset_eq_imp_distinct_iff)
qed

lemma keys_set_mset:
  "mset (cm_entries m') = mset (cm_entries m) \<Longrightarrow> set (cm_keys m') = set (cm_keys m)"
proof -
  assume "mset (cm_entries m') = mset (cm_entries m)"
  then have "mset (cm_keys m') = mset (cm_keys m)" by (simp add: cm_keys_mset)
  then show ?thesis by (rule mset_eq_setD)
qed

lemma length_entries_mset:
  "mset (cm_entries m') = add_mset v (mset (cm_entries m)) \<Longrightarrow>
     length (cm_entries m') = Suc (length (cm_entries m))"
proof -
  assume "mset (cm_entries m') = add_mset v (mset (cm_entries m))"
  then have "size (mset (cm_entries m')) = size (add_mset v (mset (cm_entries m)))" by simp
  then show ?thesis by simp
qed

lemma fresh_find_end:
  assumes "cm_inv m" "fresh m v"
  shows "cuckoo_find m (fst v) = cuckoo_end m"
proof -
  have dl: "datalen m = length (data m)" "0 < datalen m"
    using assms(1) by (auto simp: cm_inv_def cm_inv0_def)
  have "\<not> fst (data m ! idx) = fst v" if "idx \<in> set (candidate_slots m (fst v))" for idx
  proof
    assume eq: "fst (data m ! idx) = fst v"
    have "idx < length (data m)" using candidate_slots_less [OF dl(2) that] dl(1) by simp
    then have "fst (data m ! idx) \<in> set (cm_keys m)"
      using eq assms(2) by (intro slot_key_in_keys) (simp_all add: fresh_def)
    then show False using eq assms(2) by (simp add: fresh_def)
  qed
  then have "List.find (\<lambda>idx. fst (data m ! idx) = fst v) (candidate_slots m (fst v)) = None"
    by (simp add: find_None_iff)
  moreover have "fst v \<notin> set (map fst (stash m))"
    using assms(2) by (auto simp: fresh_def cm_keys_def cm_entries_def)
  ultimately show ?thesis
    by (simp add: cuckoo_find_def cuckoo_end_def stash_find_def)
qed

lemma do_insert_pc:
  assumes R: "\<And>(m :: ('k, 'v) cuckoo_map) newlen m'. cm_inv0 m \<Longrightarrow> datalen m \<le> newlen \<Longrightarrow> 0 < newlen \<Longrightarrow>
                 reserve n m newlen = Some m' \<Longrightarrow> re_post m m' \<and> newlen \<le> datalen m'"
    and inv: "cm_inv (m :: ('k, 'v) cuckoo_map)" and fr: "fresh m v"
    and di: "do_insert n m v = Some (it, m')"
  shows "ins_post m v it m'"
proof -
  obtain m1 where m1: "(if length (stash m) > maxstash m then reserve n m (datalen m * 3 div 2)
                        else Some m) = Some m1"
    and w: "insert_walk 100 (m1\<lparr>numel := numel m1 + 1\<rparr>) v None = (it, m')"
    using di by (auto split: option.splits)
  have rp: "cm_inv m1 \<and> same_params m m1 \<and> mset (cm_entries m1) = mset (cm_entries m) \<and>
            misplaced m1 \<subseteq> misplaced m \<and> datalen m \<le> datalen m1 \<and>
            (maxstash m < length (stash m) \<longrightarrow> datalen m * 3 div 2 \<le> datalen m1)"
  proof (cases "length (stash m) > maxstash m")
    case True
    then have r: "reserve n m (datalen m * 3 div 2) = Some m1" using m1 by simp
    have "cm_inv0 m" "datalen m \<le> datalen m * 3 div 2" "0 < datalen m * 3 div 2"
      using inv by (auto simp: cm_inv_def)
    from R [OF this r] show ?thesis by (simp add: re_post_def)
  next
    case False
    then have "m1 = m" using m1 by simp
    then show ?thesis using inv False by simp
  qed
  let ?m2 = "m1\<lparr>numel := numel m1 + 1\<rparr>"
  have i1: "cm_inv0 m1" "0 < datalen m1" using rp by (simp_all add: cm_inv_def)
  have ik: "illegalkey m1 = illegalkey m" using rp by (simp add: same_params_def)
  have k2: "cm_keys ?m2 = cm_keys m1" by simp
  have "set (cm_keys m1) = set (cm_keys m)" using rp keys_set_mset by blast
  then have d: "distinct (fst v # cm_keys ?m2)"
    using fr i1(1) by (simp add: k2 fresh_def cm_inv0_def)
  have wp: "walk_post ?m2 v v it m'"
    using i1 fr ik d w
    by (intro insert_walk_spec [where ip = None and c = 100])
       (simp_all add: cm_inv0_def fresh_def tracked_def)
  then have e: "mset (cm_entries m') = add_mset v (mset (cm_entries m1))"
    by (simp add: walk_post_def cm_entries_def)
  have len: "length (cm_entries m') = Suc (length (cm_entries m1))"
    using e by (rule length_entries_mset)
  have "mset (cm_keys m') = mset (fst v # cm_keys ?m2)"
    using e by (simp add: cm_keys_mset cm_entries_def)
  then have dk: "distinct (cm_keys m')" using d mset_eq_imp_distinct_iff by blast
  have nm: "numel m' = of_nat (length (cm_entries m'))"
    using wp i1(1) len by (simp add: walk_post_def cm_inv0_def)
  have "cm_inv m'"
    using wp i1 dk nm ik by (simp add: cm_inv_def cm_inv0_def walk_post_def same_params_def)
  moreover have "same_params m m'"
    using wp rp by (auto simp: walk_post_def same_params_def)
  moreover have "misplaced m' \<subseteq> misplaced m"
    using wp rp by (auto simp: walk_post_def)
  moreover have "datalen m \<le> datalen m'" using wp rp by (simp add: walk_post_def)
  moreover have "maxstash m < length (stash m) \<longrightarrow> datalen m * 3 div 2 \<le> datalen m'"
    using wp rp by (simp add: walk_post_def)
  moreover have "iter_deref m' it = Some v" using wp by (simp add: walk_post_def)
  ultimately show ?thesis using e rp by (simp add: ins_post_def)
qed

lemma insert_pc:
  assumes R: "\<And>(m :: ('k, 'v) cuckoo_map) newlen m'. cm_inv0 m \<Longrightarrow> datalen m \<le> newlen \<Longrightarrow> 0 < newlen \<Longrightarrow>
                 reserve n m newlen = Some m' \<Longrightarrow> re_post m m' \<and> newlen \<le> datalen m'"
    and inv: "cm_inv (m :: ('k, 'v) cuckoo_map)" and fr: "fresh m v"
    and ci: "cuckoo_insert n m v = Some (it, b, m')"
  shows "ins_post m v it m' \<and> b"
proof -
  have fe: "cuckoo_find m (fst v) = cuckoo_end m" using inv fr by (rule fresh_find_end)
  then have "do_insert n m v = Some (it, m')" and b using ci
    by (auto simp: Let_def split: option.splits)
  then show ?thesis using do_insert_pc [OF R inv fr] by blast
qed

lemma distinct_filter_nth:
  "distinct (map f (filter P xs)) \<Longrightarrow> i < length xs \<Longrightarrow> j < length xs \<Longrightarrow>
     P (xs ! i) \<Longrightarrow> P (xs ! j) \<Longrightarrow> f (xs ! i) = f (xs ! j) \<Longrightarrow> i = j"
proof (induction xs arbitrary: i j)
  case Nil
  then show ?case by simp
next
  case (Cons x xs)
  show ?case
  proof (cases i)
    case 0
    show ?thesis
    proof (cases j)
      case 0
      then show ?thesis using \<open>i = 0\<close> by simp
    next
      case (Suc j')
      then have "xs ! j' \<in> set (filter P xs)" using Cons.prems by simp
      then have "f (xs ! j') \<in> f ` set (filter P xs)" by (rule imageI)
      then show ?thesis using Cons.prems \<open>i = 0\<close> Suc by simp
    qed
  next
    case (Suc i')
    show ?thesis
    proof (cases j)
      case 0
      have "xs ! i' \<in> set (filter P xs)" using Cons.prems Suc by simp
      then have "f (xs ! i') \<in> f ` set (filter P xs)" by (rule imageI)
      then show ?thesis using Cons.prems \<open>j = 0\<close> Suc by simp
    next
      case (Suc j')
      have "distinct (map f (filter P xs))" using Cons.prems(1) by (simp split: if_splits)
      from Cons.IH [OF this, of i' j'] show ?thesis
        using Cons.prems Suc \<open>i = Suc i'\<close> by simp
    qed
  qed
qed

lemma counted_not_misplaced:
  assumes "cm_inv m" "i < length (data m)" "fst (data m ! i) \<noteq> illegalkey m"
    and "cuckoo_count m (fst (data m ! i))"
  shows "i \<notin> misplaced m"
proof -
  let ?k = "fst (data m ! i)"
  have dl: "datalen m = length (data m)" "0 < datalen m" and dk: "distinct (cm_keys m)"
    using assms(1) by (auto simp: cm_inv_def cm_inv0_def)
  have dlive: "distinct (map fst (live m))" using dk by (simp add: cm_keys_def cm_entries_def)
  have "data m ! i \<in> set (live m)" using assms(2,3) by (simp add: live_def)
  then have "?k \<in> fst ` set (live m)" by (rule imageI)
  then have ns: "?k \<notin> set (map fst (stash m))"
    using dk by (auto simp: cm_keys_def cm_entries_def)
  from assms(4) ns obtain idx
    where f: "List.find (\<lambda>idx. fst (data m ! idx) = ?k) (candidate_slots m ?k) = Some idx"
    by (auto simp: cuckoo_count_def split: option.splits)
  from find_SomeD [OF f] have idx: "idx \<in> set (candidate_slots m ?k)" "fst (data m ! idx) = ?k"
    by auto
  have "idx < length (data m)" using candidate_slots_less [OF dl(2) idx(1)] dl(1) by simp
  from distinct_filter_nth [OF dlive [unfolded live_def] this assms(2)] idx(2) assms(3)
  have "idx = i" by simp
  then show ?thesis using idx(1) by (simp add: misplaced_def)
qed

lemma misplaced_bound: "misplaced m \<subseteq> {j. j < length (data m)}"
  by (auto simp: misplaced_def)

lemma rehash_stash_pc:
  assumes I: "\<And>(m :: ('k, 'v) cuckoo_map) v it b m'. cm_inv m \<Longrightarrow> fresh m v \<Longrightarrow>
                 cuckoo_insert n m v = Some (it, b, m') \<Longrightarrow> ins_post m v it m' \<and> b"
    and "cm_inv (m :: ('k, 'v) cuckoo_map)" "misplaced m = {}"
    and "distinct (map fst vs @ cm_keys m)" "illegalkey m \<notin> set (map fst vs)"
    and "rehash_stash n m vs = Some m'"
  shows "cm_inv m' \<and> same_params m m' \<and> mset (cm_entries m') = mset (cm_entries m) + mset vs \<and>
         misplaced m' = {} \<and> datalen m \<le> datalen m'"
  using assms(2-)
proof (induction vs arbitrary: m)
  case Nil
  then show ?case by simp
next
  case (Cons v vs)
  from Cons.prems(5) obtain it b m1
    where ci: "cuckoo_insert n m v = Some (it, b, m1)" and rs: "rehash_stash n m1 vs = Some m'"
    by (auto split: option.splits)
  have fr: "fresh m v" using Cons.prems(3,4) by (auto simp: fresh_def)
  from I [OF Cons.prems(1) fr ci] have ip: "ins_post m v it m1" by simp
  then have inv1: "cm_inv m1" and sp: "same_params m m1"
    and e: "mset (cm_entries m1) = add_mset v (mset (cm_entries m))"
    and mp: "misplaced m1 = {}" and dl: "datalen m \<le> datalen m1"
    using Cons.prems(2) by (auto simp: ins_post_def)
  have "mset (cm_keys m1) = mset (fst v # cm_keys m)" using e by (simp add: cm_keys_mset)
  then have "mset (map fst vs @ cm_keys m1) = mset (map fst (v # vs) @ cm_keys m)" by simp
  then have d1: "distinct (map fst vs @ cm_keys m1)"
    using Cons.prems(3) mset_eq_imp_distinct_iff by blast
  have ik: "illegalkey m1 \<notin> set (map fst vs)"
    using Cons.prems(4) sp by (simp add: same_params_def)
  from Cons.IH [OF inv1 mp d1 ik rs] show ?case
    using sp e dl by (auto intro: same_params_trans)
qed

lemma rehash_data_end:
  assumes "cm_inv m" "misplaced m \<subseteq> {j. i \<le> j}" "\<not> i < datalen m"
  shows "re_post m m"
proof -
  have "datalen m = length (data m)" using assms(1) by (simp add: cm_inv_def cm_inv0_def)
  then have "misplaced m = {}" using assms(2,3) misplaced_bound [of m] by fastforce
  then show ?thesis using assms(1) by (rule re_post_refl [rotated])
qed

lemma cleared_inv:
  assumes "cm_inv m" "i < datalen m" "fst (data m ! i) \<noteq> illegalkey m"
  defines "m1 \<equiv> m\<lparr>data := (data m)[i := (illegalkey m, mapped_default m)], numel := numel m - 1\<rparr>"
  shows "cm_inv m1" "fresh m1 (data m ! i)" "misplaced m1 \<subseteq> misplaced m - {i}"
    "add_mset (data m ! i) (mset (cm_entries m1)) = mset (cm_entries m)" "same_params m m1"
    "datalen m1 = datalen m"
proof -
  have dl: "datalen m = length (data m)" "0 < datalen m" and dk: "distinct (cm_keys m)"
    and ns: "illegalkey m \<notin> set (map fst (stash m))"
    and nm: "numel m = of_nat (length (cm_entries m))"
    using assms(1) by (auto simp: cm_inv_def cm_inv0_def)
  have lt: "i < length (data m)" using assms(2) dl by simp
  have lv: "add_mset (data m ! i) (mset (live m1)) = mset (live m)"
    using live_update_clear [OF lt assms(3), of "mapped_default m"] by (simp add: m1_def live_def)
  then show e: "add_mset (data m ! i) (mset (cm_entries m1)) = mset (cm_entries m)"
    by (simp add: cm_entries_def m1_def)
  then have "mset (fst (data m ! i) # cm_keys m1) = mset (cm_keys m)"
    by (simp add: cm_keys_mset flip: e)
  then have d1: "distinct (fst (data m ! i) # cm_keys m1)"
    using dk mset_eq_imp_distinct_iff by blast
  have "size (mset (cm_entries m)) = Suc (size (mset (cm_entries m1)))"
    by (simp flip: e)
  then have "length (cm_entries m) = Suc (length (cm_entries m1))" by simp
  then have n1: "numel m1 = of_nat (length (cm_entries m1))"
    using nm by (simp add: m1_def)
  show "cm_inv m1"
    using dl d1 ns n1 by (simp add: cm_inv_def cm_inv0_def) (simp add: m1_def)
  show "fresh m1 (data m ! i)" using d1 assms(3) by (simp add: fresh_def) (simp add: m1_def)
  show "misplaced m1 \<subseteq> misplaced m - {i}"
    using misplaced_clear [of m i "mapped_default m"] by (simp add: m1_def)
  show "same_params m m1" by (simp add: same_params_def m1_def)
  show "datalen m1 = datalen m" by (simp add: m1_def)
qed

lemma above_step:
  fixes S :: "nat set"
  assumes "i \<notin> S" "S \<subseteq> {j. i \<le> j}"
  shows "S \<subseteq> {j. i + 1 \<le> j}"
proof
  fix x assume x: "x \<in> S"
  then have "i \<le> x" using assms(2) by auto
  moreover have "x \<noteq> i" using x assms(1) by auto
  ultimately show "x \<in> {j. i + 1 \<le> j}" by simp
qed

lemma rehash_data_skip:
  assumes "i < datalen m"
    and "\<not> (fst (data m ! i) \<noteq> illegalkey m \<and> \<not> cuckoo_count m (fst (data m ! i)))"
  shows "rehash_data (Suc n) m i = rehash_data n m (i + 1)"
  using assms by (auto simp del: cuckoo_insert.simps)

lemma rehash_data_move:
  assumes "i < datalen m"
    and "fst (data m ! i) \<noteq> illegalkey m \<and> \<not> cuckoo_count m (fst (data m ! i))"
  shows "rehash_data (Suc n) m i =
           (case cuckoo_insert n
                   (m\<lparr>data := (data m)[i := (illegalkey m, mapped_default m)],
                      numel := numel m - 1\<rparr>) (data m ! i) of
              None \<Rightarrow> None
            | Some (it, b, m2) \<Rightarrow> rehash_data n m2 (i + 1))"
  using assms by (simp add: Let_def del: cuckoo_insert.simps)

lemma rehash_data_pc_Suc:
  assumes I: "\<And>(m :: ('k, 'v) cuckoo_map) v it b m'. cm_inv m \<Longrightarrow> fresh m v \<Longrightarrow>
                 cuckoo_insert n m v = Some (it, b, m') \<Longrightarrow> ins_post m v it m' \<and> b"
    and D: "\<And>(m :: ('k, 'v) cuckoo_map) i m'. cm_inv m \<Longrightarrow> misplaced m \<subseteq> {j. i \<le> j} \<Longrightarrow>
                 rehash_data n m i = Some m' \<Longrightarrow> re_post m m'"
    and inv: "cm_inv (m :: ('k, 'v) cuckoo_map)" and mp: "misplaced m \<subseteq> {j. i \<le> j}"
    and rd: "rehash_data (Suc n) m i = Some m'"
  shows "re_post m m'"
proof (cases "i < datalen m")
  case False
  then have "m' = m" using rd by simp
  then show ?thesis using rehash_data_end [OF inv mp False] by simp
next
  case True
  have dl: "datalen m = length (data m)" using inv by (simp add: cm_inv_def cm_inv0_def)
  show ?thesis
  proof (cases "fst (data m ! i) \<noteq> illegalkey m \<and> \<not> cuckoo_count m (fst (data m ! i))")
    case False
    then have r: "rehash_data n m (i + 1) = Some m'"
      using rd rehash_data_skip [OF True False] by simp
    have "i \<notin> misplaced m"
    proof (cases "fst (data m ! i) = illegalkey m")
      case True
      then show ?thesis by (simp add: misplaced_def)
    next
      case nk: False
      then have "cuckoo_count m (fst (data m ! i))" using False by simp
      then show ?thesis using counted_not_misplaced [OF inv] True dl nk by simp
    qed
    then have "misplaced m \<subseteq> {j. i + 1 \<le> j}"
      using mp by (rule above_step)
    from D [OF inv this r] show ?thesis .
  next
    case live: True
    define m1 where "m1 = m\<lparr>data := (data m)[i := (illegalkey m, mapped_default m)],
                              numel := numel m - 1\<rparr>"
    from rd rehash_data_move [OF True live, of n] obtain it b m2
      where ci: "cuckoo_insert n m1 (data m ! i) = Some (it, b, m2)"
        and r: "rehash_data n m2 (i + 1) = Some m'"
      by (auto simp: m1_def split: option.splits)
    note c = cleared_inv [OF inv True, folded m1_def]
    have nk: "fst (data m ! i) \<noteq> illegalkey m" using live by simp
    from I [OF c(1) [OF nk] c(2) [OF nk] ci] have ip: "ins_post m1 (data m ! i) it m2" by simp
    then have inv2: "cm_inv m2" by (simp add: ins_post_def)
    have e2: "mset (cm_entries m2) = mset (cm_entries m)"
      using ip c(4) [OF nk] by (simp add: ins_post_def)
    have "misplaced m2 \<subseteq> misplaced m - {i}" using ip c(3) [OF nk] by (auto simp: ins_post_def)
    then have mp2: "misplaced m2 \<subseteq> {j. i + 1 \<le> j}"
      using mp by (intro above_step) auto
    from D [OF inv2 mp2 r] have "re_post m2 m'" .
    moreover have "same_params m m2" "datalen m \<le> datalen m2"
      using ip c(5,6) [OF nk] by (auto simp: ins_post_def intro: same_params_trans)
    ultimately show ?thesis using e2 by (auto simp: re_post_def intro: same_params_trans)
  qed
qed

lemma rehash_pc:
  assumes I: "\<And>(m :: ('k, 'v) cuckoo_map) v it b m'. cm_inv m \<Longrightarrow> fresh m v \<Longrightarrow>
                 cuckoo_insert n m v = Some (it, b, m') \<Longrightarrow> ins_post m v it m' \<and> b"
    and D: "\<And>(m :: ('k, 'v) cuckoo_map) i m'. cm_inv m \<Longrightarrow> misplaced m \<subseteq> {j. i \<le> j} \<Longrightarrow>
                 rehash_data n m i = Some m' \<Longrightarrow> re_post m m'"
    and inv: "cm_inv (m :: ('k, 'v) cuckoo_map)" and rh: "rehash n m = Some m'"
  shows "re_post m m'"
proof -
  define m1 where "m1 = m\<lparr>stash := [], numel := numel m - of_nat (length (stash m))\<rparr>"
  from rh obtain m2 where rd: "rehash_data n m1 0 = Some m2"
    and rs: "rehash_stash n m2 (stash m) = Some m'"
    by (auto simp: Let_def m1_def split: option.splits)
  have dl: "datalen m = length (data m)" "0 < datalen m" and dk: "distinct (cm_keys m)"
    and ns: "illegalkey m \<notin> set (map fst (stash m))"
    and nm: "numel m = of_nat (length (cm_entries m))"
    using inv by (auto simp: cm_inv_def cm_inv0_def)
  have e1: "cm_entries m1 = live m" by (simp add: cm_entries_def m1_def live_def)
  have "numel m1 = of_nat (length (live m))"
    using nm by (simp add: m1_def cm_entries_def)
  then have inv1: "cm_inv m1"
    using dl dk by (simp add: cm_inv_def cm_inv0_def cm_keys_def e1)
       (simp add: m1_def cm_entries_def)
  from D [OF inv1 _ rd] have rp: "re_post m1 m2" by simp
  then have inv2: "cm_inv m2" and mp2: "misplaced m2 = {}"
    and e2: "mset (cm_entries m2) = mset (live m)" and sp2: "same_params m1 m2"
    and dl2: "datalen m1 \<le> datalen m2"
    by (simp_all add: re_post_def e1)
  have "mset (cm_keys m2) = mset (map fst (live m))" using e2 by (simp add: cm_keys_mset)
  then have "mset (map fst (stash m) @ cm_keys m2) = mset (cm_keys m)"
    by (simp add: cm_keys_def cm_entries_def)
  then have d2: "distinct (map fst (stash m) @ cm_keys m2)"
    using dk mset_eq_imp_distinct_iff by blast
  have ik2: "illegalkey m2 \<notin> set (map fst (stash m))"
    using ns sp2 by (simp add: same_params_def m1_def)
  from rehash_stash_pc [OF I inv2 mp2 d2 ik2 rs]
  have "cm_inv m'" "same_params m2 m'"
    "mset (cm_entries m') = mset (cm_entries m2) + mset (stash m)"
    "misplaced m' = {}" "datalen m2 \<le> datalen m'" by simp_all
  moreover have "same_params m m2" using sp2 by (simp add: same_params_def m1_def)
  moreover have "datalen m \<le> datalen m2" using dl2 by (simp add: m1_def)
  ultimately show ?thesis
    using e2 by (auto simp: re_post_def cm_entries_def intro: same_params_trans)
qed

lemma live_extend:
  "live (m\<lparr>data := data m @ replicate k (illegalkey m, x), datalen := l\<rparr>) = live m"
  by (simp add: live_def)

lemma reserve_pc_Suc:
  assumes H: "\<And>(m :: ('k, 'v) cuckoo_map) m'. cm_inv m \<Longrightarrow> rehash n m = Some m' \<Longrightarrow> re_post m m'"
    and inv: "cm_inv0 (m :: ('k, 'v) cuckoo_map)" and le: "datalen m \<le> newlen" and pos: "0 < newlen"
    and rs: "reserve (Suc n) m newlen = Some m'"
  shows "re_post m m' \<and> newlen \<le> datalen m'"
proof -
  define m1 where "m1 = m\<lparr>data := data m @ replicate (newlen - datalen m)
                                         (illegalkey m, mapped_default m),
                            datalen := newlen\<rparr>"
  have dl: "datalen m = length (data m)" using inv by (simp add: cm_inv0_def)
  then have "take newlen (data m) = data m" using le by simp
  then have rh: "rehash n m1 = Some m'" using rs by (simp add: m1_def del: rehash.simps)
  have lv: "live m1 = live m" unfolding m1_def by (rule live_extend)
  then have e1: "cm_entries m1 = cm_entries m" by (simp add: cm_entries_def m1_def)
  then have "cm_inv0 m1"
    using inv dl le by (simp add: cm_inv0_def cm_keys_def) (simp add: m1_def)
  then have inv1: "cm_inv m1" using pos by (simp add: cm_inv_def) (simp add: m1_def)
  from H [OF inv1 rh] have "re_post m1 m'" .
  then show ?thesis
    using e1 le by (simp add: re_post_def same_params_def) (simp add: m1_def)
qed

lemma pc_all:
  "(\<forall>(m :: ('k, 'v) cuckoo_map) newlen m'.
      cm_inv0 m \<longrightarrow> datalen m \<le> newlen \<longrightarrow> 0 < newlen \<longrightarrow> reserve n m newlen = Some m' \<longrightarrow>
      re_post m m' \<and> newlen \<le> datalen m') \<and>
   (\<forall>(m :: ('k, 'v) cuckoo_map) i m'.
      cm_inv m \<longrightarrow> misplaced m \<subseteq> {j. i \<le> j} \<longrightarrow> rehash_data n m i = Some m' \<longrightarrow> re_post m m')"
proof (induction n)
  case 0
  have "re_post m m'" if "cm_inv m" "misplaced m \<subseteq> {j. i \<le> j}" "rehash_data 0 m i = Some m'"
    for m :: "('k, 'v) cuckoo_map" and i m'
  proof -
    from that(3) have "\<not> i < datalen m" "m' = m" by (auto split: if_splits)
    then show ?thesis using rehash_data_end [OF that(1,2)] by simp
  qed
  then show ?case by simp
next
  case (Suc n)
  have R: "re_post m m' \<and> newlen \<le> datalen m'"
    if "cm_inv0 m" "datalen m \<le> newlen" "0 < newlen" "reserve n m newlen = Some m'"
    for m :: "('k, 'v) cuckoo_map" and newlen m'
    using Suc.IH that by blast
  have D: "re_post m m'"
    if "cm_inv m" "misplaced m \<subseteq> {j. i \<le> j}" "rehash_data n m i = Some m'"
    for m :: "('k, 'v) cuckoo_map" and i m'
    using Suc.IH that by blast
  have I: "ins_post m v it m' \<and> b"
    if "cm_inv m" "fresh m v" "cuckoo_insert n m v = Some (it, b, m')"
    for m :: "('k, 'v) cuckoo_map" and v it b m'
    using insert_pc [OF R that] .
  have H: "re_post m m'" if "cm_inv m" "rehash n m = Some m'"
    for m :: "('k, 'v) cuckoo_map" and m'
    using rehash_pc [OF I D that] .
  have R': "re_post m m' \<and> newlen \<le> datalen m'"
    if "cm_inv0 m" "datalen m \<le> newlen" "0 < newlen" "reserve (Suc n) m newlen = Some m'"
    for m :: "('k, 'v) cuckoo_map" and newlen m'
    using reserve_pc_Suc [OF H that] .
  have D': "re_post m m'"
    if "cm_inv m" "misplaced m \<subseteq> {j. i \<le> j}" "rehash_data (Suc n) m i = Some m'"
    for m :: "('k, 'v) cuckoo_map" and i m'
    using rehash_data_pc_Suc [OF I D that] .
  from R' D' show ?case by blast
qed

lemma reserve_correct:
  assumes "cm_inv0 (m :: ('k, 'v) cuckoo_map)" "datalen m \<le> newlen" "0 < newlen"
    and "reserve n m newlen = Some m'"
  shows "re_post m m' \<and> newlen \<le> datalen m'"
  using pc_all [of n] assms by blast

lemma do_insert_correct:
  assumes "cm_inv (m :: ('k, 'v) cuckoo_map)" "fresh m v" "do_insert n m v = Some (it, m')"
  shows "ins_post m v it m'"
  using do_insert_pc [OF reserve_correct assms] .

lemma cuckoo_insert_correct:
  assumes "cm_inv (m :: ('k, 'v) cuckoo_map)" "fresh m v" "cuckoo_insert n m v = Some (it, b, m')"
  shows "ins_post m v it m' \<and> b"
  using insert_pc [OF reserve_correct assms] .

lemma rehash_data_correct:
  assumes "cm_inv (m :: ('k, 'v) cuckoo_map)" "misplaced m \<subseteq> {j. i \<le> j}"
    and "rehash_data n m i = Some m'"
  shows "re_post m m'"
  using pc_all [of n] assms by blast

lemma rehash_stash_correct:
  assumes "cm_inv (m :: ('k, 'v) cuckoo_map)" "misplaced m = {}"
    and "distinct (map fst vs @ cm_keys m)" "illegalkey m \<notin> set (map fst vs)"
    and "rehash_stash n m vs = Some m'"
  shows "cm_inv m' \<and> same_params m m' \<and> mset (cm_entries m') = mset (cm_entries m) + mset vs \<and>
         misplaced m' = {} \<and> datalen m \<le> datalen m'"
  using rehash_stash_pc [OF cuckoo_insert_correct assms] .

subsection \<open>More fuel does not change a result\<close>

lemma rehash_data_done: "\<not> i < datalen m \<Longrightarrow> rehash_data n m i = Some m"
  by (cases n) simp_all

lemma do_insert_mono_step:
  assumes R: "\<And>(m :: ('k, 'v) cuckoo_map) l r. reserve n m l = Some r \<Longrightarrow> reserve n' m l = Some r"
    and "do_insert n (m :: ('k, 'v) cuckoo_map) v = Some r"
  shows "do_insert n' m v = Some r"
proof (cases "length (stash m) > maxstash m")
  case True
  then obtain m1 where "reserve n m (datalen m * 3 div 2) = Some m1"
    using assms(2) by (auto split: option.splits)
  from this R [OF this] show ?thesis using assms(2) True by simp
next
  case False
  then show ?thesis using assms(2) by simp
qed

lemma insert_mono_step:
  assumes R: "\<And>(m :: ('k, 'v) cuckoo_map) l r. reserve n m l = Some r \<Longrightarrow> reserve n' m l = Some r"
    and "cuckoo_insert n (m :: ('k, 'v) cuckoo_map) v = Some r"
  shows "cuckoo_insert n' m v = Some r"
proof (cases "cuckoo_find m (fst v) \<noteq> cuckoo_end m")
  case True
  then show ?thesis using assms(2) by (simp add: Let_def del: do_insert.simps)
next
  case False
  then obtain r1 where d: "do_insert n m v = Some r1"
    using assms(2) by (auto simp: Let_def simp del: do_insert.simps split: option.splits)
  from do_insert_mono_step [OF R d] d show ?thesis
    using assms(2) False by (simp add: Let_def del: do_insert.simps)
qed

lemma rehash_stash_mono_step:
  assumes R: "\<And>(m :: ('k, 'v) cuckoo_map) l r. reserve n m l = Some r \<Longrightarrow> reserve n' m l = Some r"
    and "rehash_stash n (m :: ('k, 'v) cuckoo_map) vs = Some r"
  shows "rehash_stash n' m vs = Some r"
  using assms(2)
proof (induction vs arbitrary: m)
  case Nil
  then show ?case by simp
next
  case (Cons v vs)
  from Cons.prems obtain it b m1 where c: "cuckoo_insert n m v = Some (it, b, m1)"
    and rs: "rehash_stash n m1 vs = Some r"
    by (auto simp del: cuckoo_insert.simps split: option.splits)
  from insert_mono_step [OF R c] Cons.IH [OF rs] show ?case
    by (simp del: cuckoo_insert.simps)
qed

lemma rehash_mono_step:
  assumes R: "\<And>(m :: ('k, 'v) cuckoo_map) l r. reserve n m l = Some r \<Longrightarrow> reserve n' m l = Some r"
    and D: "\<And>(m :: ('k, 'v) cuckoo_map) i r. rehash_data n m i = Some r \<Longrightarrow> rehash_data n' m i = Some r"
    and "rehash n (m :: ('k, 'v) cuckoo_map) = Some r"
  shows "rehash n' m = Some r"
proof -
  let ?m1 = "m\<lparr>stash := [], numel := numel m - of_nat (length (stash m))\<rparr>"
  from assms(3) obtain m2 where rd: "rehash_data n ?m1 0 = Some m2"
    and rs: "rehash_stash n m2 (stash m) = Some r"
    by (auto simp: Let_def split: option.splits)
  from D [OF rd] rehash_stash_mono_step [OF R rs] show ?thesis by (simp add: Let_def)
qed

lemma rehash_data_mono_step:
  assumes R: "\<And>(m :: ('k, 'v) cuckoo_map) l r. reserve n m l = Some r \<Longrightarrow> reserve n' m l = Some r"
    and D: "\<And>(m :: ('k, 'v) cuckoo_map) i r. rehash_data n m i = Some r \<Longrightarrow> rehash_data n' m i = Some r"
    and "rehash_data (Suc n) (m :: ('k, 'v) cuckoo_map) i = Some r"
  shows "rehash_data (Suc n') m i = Some r"
proof (cases "i < datalen m")
  case False
  then show ?thesis using assms(3) by (simp add: rehash_data_done)
next
  case True
  show ?thesis
  proof (cases "fst (data m ! i) \<noteq> illegalkey m \<and> \<not> cuckoo_count m (fst (data m ! i))")
    case False
    from assms(3) rehash_data_skip [OF True False, of n]
    have "rehash_data n m (i + 1) = Some r" by simp
    from D [OF this] show ?thesis using rehash_data_skip [OF True False, of n'] by simp
  next
    case mv: True
    let ?m1 = "m\<lparr>data := (data m)[i := (illegalkey m, mapped_default m)], numel := numel m - 1\<rparr>"
    from assms(3) rehash_data_move [OF True mv, of n] obtain it b m2
      where c: "cuckoo_insert n ?m1 (data m ! i) = Some (it, b, m2)"
        and rd: "rehash_data n m2 (i + 1) = Some r"
      by (auto split: option.splits)
    from insert_mono_step [OF R c] D [OF rd] show ?thesis
      using rehash_data_move [OF True mv, of n'] by simp
  qed
qed

lemma mono_all:
  "\<forall>n'. n \<le> n' \<longrightarrow>
     (\<forall>(m :: ('k, 'v) cuckoo_map) l r. reserve n m l = Some r \<longrightarrow> reserve n' m l = Some r) \<and>
     (\<forall>(m :: ('k, 'v) cuckoo_map) i r. rehash_data n m i = Some r \<longrightarrow> rehash_data n' m i = Some r)"
proof (induction n)
  case 0
  have "rehash_data n' m i = Some r" if "rehash_data 0 m i = Some r"
    for m :: "('k, 'v) cuckoo_map" and i r n'
  proof -
    from that have "\<not> i < datalen m" "r = m" by (auto split: if_splits)
    then show ?thesis by (simp add: rehash_data_done)
  qed
  then show ?case by simp
next
  case (Suc n)
  show ?case
  proof (intro allI impI)
    fix n' assume "Suc n \<le> n'"
    then obtain k where k: "n' = Suc k" "n \<le> k" by (cases n') auto
    have R: "reserve k m l = Some r" if "reserve n m l = Some r"
      for m :: "('k, 'v) cuckoo_map" and l r
      using Suc.IH k(2) that by blast
    have D: "rehash_data k m i = Some r" if "rehash_data n m i = Some r"
      for m :: "('k, 'v) cuckoo_map" and i r
      using Suc.IH k(2) that by blast
    have R': "reserve (Suc k) m l = Some r" if "reserve (Suc n) m l = Some r"
      for m :: "('k, 'v) cuckoo_map" and l r
      using rehash_mono_step [OF R D] that by (simp del: rehash.simps)
    have D': "rehash_data (Suc k) m i = Some r" if "rehash_data (Suc n) m i = Some r"
      for m :: "('k, 'v) cuckoo_map" and i r
      using rehash_data_mono_step [OF R D that] .
    from R' D' show "(\<forall>(m :: ('k, 'v) cuckoo_map) l r. reserve (Suc n) m l = Some r \<longrightarrow>
                        reserve n' m l = Some r) \<and>
          (\<forall>(m :: ('k, 'v) cuckoo_map) i r. rehash_data (Suc n) m i = Some r \<longrightarrow>
                        rehash_data n' m i = Some r)"
      unfolding k(1) by blast
  qed
qed

lemma reserve_mono:
  "reserve n (m :: ('k, 'v) cuckoo_map) l = Some r \<Longrightarrow> n \<le> n' \<Longrightarrow> reserve n' m l = Some r"
  using mono_all [of n] by blast

lemma rehash_data_mono:
  "rehash_data n (m :: ('k, 'v) cuckoo_map) i = Some r \<Longrightarrow> n \<le> n' \<Longrightarrow> rehash_data n' m i = Some r"
  using mono_all [of n] by blast

lemma do_insert_mono:
  assumes "do_insert n (m :: ('k, 'v) cuckoo_map) v = Some r" "n \<le> n'"
  shows "do_insert n' m v = Some r"
proof -
  have R: "reserve n' m l = Some r" if "reserve n m l = Some r"
    for m :: "('k, 'v) cuckoo_map" and l r
    using reserve_mono [OF that assms(2)] .
  from do_insert_mono_step [OF R assms(1)] show ?thesis .
qed

lemma cuckoo_insert_mono:
  assumes "cuckoo_insert n (m :: ('k, 'v) cuckoo_map) v = Some r" "n \<le> n'"
  shows "cuckoo_insert n' m v = Some r"
proof -
  have R: "reserve n' m l = Some r" if "reserve n m l = Some r"
    for m :: "('k, 'v) cuckoo_map" and l r
    using reserve_mono [OF that assms(2)] .
  from insert_mono_step [OF R assms(1)] show ?thesis .
qed

lemma rehash_stash_mono:
  assumes "rehash_stash n (m :: ('k, 'v) cuckoo_map) vs = Some r" "n \<le> n'"
  shows "rehash_stash n' m vs = Some r"
proof -
  have R: "reserve n' m l = Some r" if "reserve n m l = Some r"
    for m :: "('k, 'v) cuckoo_map" and l r
    using reserve_mono [OF that assms(2)] .
  from rehash_stash_mono_step [OF R assms(1)] show ?thesis .
qed

lemma rehash_mono:
  assumes "rehash n (m :: ('k, 'v) cuckoo_map) = Some r" "n \<le> n'"
  shows "rehash n' m = Some r"
proof -
  have R: "reserve n' m l = Some r" if "reserve n m l = Some r"
    for m :: "('k, 'v) cuckoo_map" and l r
    using reserve_mono [OF that assms(2)] .
  have D: "rehash_data n' m i = Some r" if "rehash_data n m i = Some r"
    for m :: "('k, 'v) cuckoo_map" and i r
    using rehash_data_mono [OF that assms(2)] .
  from rehash_mono_step [OF R D assms(1)] show ?thesis .
qed

subsection \<open>Insertion and rehashing return\<close>

lemma count_candidate:
  assumes "i \<in> set (candidate_slots m k)" "fst (data m ! i) = k"
  shows "cuckoo_count m k"
proof (cases "List.find (\<lambda>idx. fst (data m ! idx) = k) (candidate_slots m k)")
  case None
  from find_NoneD [OF None assms(1)] assms(2) show ?thesis by simp
next
  case (Some a)
  then show ?thesis by (simp add: cuckoo_count_def)
qed

lemma insert_term_step:
  assumes H: "\<And>(m :: ('k, 'v) cuckoo_map) v. cm_inv m \<Longrightarrow> fresh m v \<Longrightarrow>
                 length (cm_entries m) < e \<Longrightarrow> \<exists>n r. do_insert n m v = Some r"
    and "cm_inv (m :: ('k, 'v) cuckoo_map)" "fresh m v" "length (cm_entries m) < e"
  shows "\<exists>n it m'. cuckoo_insert n m v = Some (it, True, m')"
proof -
  from H [OF assms(2-4)] obtain n it m' where "do_insert n m v = Some (it, m')" by auto
  moreover have "cuckoo_find m (fst v) = cuckoo_end m" using assms(2,3) by (rule fresh_find_end)
  ultimately have "cuckoo_insert n m v = Some (it, True, m')"
    by (simp add: Let_def del: do_insert.simps)
  then show ?thesis by blast
qed

lemma rehash_data_term_step:
  assumes H: "\<And>(m :: ('k, 'v) cuckoo_map) v. cm_inv m \<Longrightarrow> fresh m v \<Longrightarrow>
                 length (cm_entries m) < e \<Longrightarrow> \<exists>n r. do_insert n m v = Some r"
  shows "cm_inv (m :: ('k, 'v) cuckoo_map) \<Longrightarrow> length (cm_entries m) \<le> e \<Longrightarrow>
           misplaced m \<subseteq> {j. i \<le> j} \<Longrightarrow> \<exists>n m'. rehash_data n m i = Some m'"
proof (induction "card (misplaced m)" arbitrary: m i rule: less_induct)
  case less
  have dl: "datalen m = length (data m)" using less.prems(1) by (simp add: cm_inv_def cm_inv0_def)
  show ?case using less.prems(3)
  proof (induction "datalen m - i" arbitrary: i rule: less_induct)
    case inner: less
    show ?case
    proof (cases "i < datalen m")
      case False
      then have "rehash_data 0 m i = Some m" by simp
      then show ?thesis by blast
    next
      case True
      show ?thesis
      proof (cases "fst (data m ! i) \<noteq> illegalkey m \<and> \<not> cuckoo_count m (fst (data m ! i))")
        case False
        have "i \<notin> misplaced m"
        proof (cases "fst (data m ! i) = illegalkey m")
          case True
          then show ?thesis by (simp add: misplaced_def)
        next
          case nk: False
          then have "cuckoo_count m (fst (data m ! i))" using False by simp
          then show ?thesis using counted_not_misplaced [OF less.prems(1)] True dl nk by simp
        qed
        then have "misplaced m \<subseteq> {j. i + 1 \<le> j}" using inner.prems by (rule above_step)
        moreover have "datalen m - (i + 1) < datalen m - i" using True by simp
        ultimately obtain n m' where "rehash_data n m (i + 1) = Some m'"
          using inner.hyps by blast
        then have "rehash_data (Suc n) m i = Some m'"
          using rehash_data_skip [OF True False, of n] by simp
        then show ?thesis by blast
      next
        case mv: True
        define m1 where "m1 = m\<lparr>data := (data m)[i := (illegalkey m, mapped_default m)],
                                  numel := numel m - 1\<rparr>"
        have nk: "fst (data m ! i) \<noteq> illegalkey m" using mv by simp
        note c = cleared_inv [OF less.prems(1) True nk, folded m1_def]
        have "size (mset (cm_entries m)) = Suc (size (mset (cm_entries m1)))"
          by (simp flip: c(4))
        then have l1: "length (cm_entries m1) < e" using less.prems(2) by simp
        from insert_term_step [where e = e, OF H c(1,2) l1] obtain n1 it m2
          where ci: "cuckoo_insert n1 m1 (data m ! i) = Some (it, True, m2)" by blast
        from cuckoo_insert_correct [OF c(1,2) ci] have ip: "ins_post m1 (data m ! i) it m2" by simp
        then have inv2: "cm_inv m2" by (simp add: ins_post_def)
        have e2: "mset (cm_entries m2) = mset (cm_entries m)"
          using ip c(4) by (simp add: ins_post_def)
        then have "size (mset (cm_entries m2)) = size (mset (cm_entries m))" by simp
        then have l2: "length (cm_entries m2) \<le> e" using less.prems(2) by simp
        have sub: "misplaced m2 \<subseteq> misplaced m - {i}" using ip c(3) by (auto simp: ins_post_def)
        then have mp2: "misplaced m2 \<subseteq> {j. i + 1 \<le> j}"
          using inner.prems by (intro above_step) auto
        have "i \<notin> set (candidate_slots m (fst (data m ! i)))"
          using count_candidate [of i m "fst (data m ! i)"] mv by auto
        then have "i \<in> misplaced m" using True dl nk by (simp add: misplaced_def)
        then have "misplaced m2 \<subset> misplaced m" using sub by auto
        then have "card (misplaced m2) < card (misplaced m)"
          by (rule psubset_card_mono [OF finite_misplaced])
        from less.hyps [OF this inv2 l2 mp2] obtain n2 m'
          where rd: "rehash_data n2 m2 (i + 1) = Some m'" by blast
        let ?n = "max n1 n2"
        have "cuckoo_insert ?n m1 (data m ! i) = Some (it, True, m2)"
          using ci by (rule cuckoo_insert_mono) simp
        moreover have "rehash_data ?n m2 (i + 1) = Some m'"
          using rd by (rule rehash_data_mono) simp
        ultimately have "rehash_data (Suc ?n) m i = Some m'"
          using rehash_data_move [OF True mv, of ?n] by (simp add: m1_def)
        then show ?thesis by blast
      qed
    qed
  qed
qed

lemma rehash_stash_term_step:
  assumes H: "\<And>(m :: ('k, 'v) cuckoo_map) v. cm_inv m \<Longrightarrow> fresh m v \<Longrightarrow>
                 length (cm_entries m) < e \<Longrightarrow> \<exists>n r. do_insert n m v = Some r"
  shows "cm_inv (m :: ('k, 'v) cuckoo_map) \<Longrightarrow> distinct (map fst vs @ cm_keys m) \<Longrightarrow>
           illegalkey m \<notin> set (map fst vs) \<Longrightarrow> length (cm_entries m) + length vs \<le> e \<Longrightarrow>
           \<exists>n m'. rehash_stash n m vs = Some m'"
proof (induction vs arbitrary: m)
  case Nil
  then show ?case by simp
next
  case (Cons v vs)
  have fr: "fresh m v" using Cons.prems(2,3) by (auto simp: fresh_def)
  have l: "length (cm_entries m) < e" using Cons.prems(4) by simp
  from insert_term_step [where e = e, OF H Cons.prems(1) fr l] obtain n1 it m1
    where ci: "cuckoo_insert n1 m v = Some (it, True, m1)" by blast
  from cuckoo_insert_correct [OF Cons.prems(1) fr ci] have ip: "ins_post m v it m1" by simp
  then have inv1: "cm_inv m1" and sp: "same_params m m1"
    and e: "mset (cm_entries m1) = add_mset v (mset (cm_entries m))"
    by (auto simp: ins_post_def)
  have "mset (cm_keys m1) = mset (fst v # cm_keys m)" using e by (simp add: cm_keys_mset)
  then have "mset (map fst vs @ cm_keys m1) = mset (map fst (v # vs) @ cm_keys m)" by simp
  then have d1: "distinct (map fst vs @ cm_keys m1)"
    using Cons.prems(2) mset_eq_imp_distinct_iff by blast
  have ik: "illegalkey m1 \<notin> set (map fst vs)"
    using Cons.prems(3) sp by (simp add: same_params_def)
  have "length (cm_entries m1) = Suc (length (cm_entries m))"
    using e by (rule length_entries_mset)
  then have l1: "length (cm_entries m1) + length vs \<le> e" using Cons.prems(4) by simp
  from Cons.IH [OF inv1 d1 ik l1] obtain n2 m' where rs: "rehash_stash n2 m1 vs = Some m'"
    by blast
  let ?n = "max n1 n2"
  have "cuckoo_insert ?n m v = Some (it, True, m1)" using ci by (rule cuckoo_insert_mono) simp
  moreover have "rehash_stash ?n m1 vs = Some m'" using rs by (rule rehash_stash_mono) simp
  ultimately have "rehash_stash ?n m (v # vs) = Some m'" by (simp del: cuckoo_insert.simps)
  then show ?case by blast
qed

lemma rehash_term_step:
  assumes H: "\<And>(m :: ('k, 'v) cuckoo_map) v. cm_inv m \<Longrightarrow> fresh m v \<Longrightarrow>
                 length (cm_entries m) < e \<Longrightarrow> \<exists>n r. do_insert n m v = Some r"
    and inv: "cm_inv (m :: ('k, 'v) cuckoo_map)" and le: "length (cm_entries m) \<le> e"
  shows "\<exists>n m'. rehash n m = Some m'"
proof -
  define m1 where "m1 = m\<lparr>stash := [], numel := numel m - of_nat (length (stash m))\<rparr>"
  have dl: "datalen m = length (data m)" "0 < datalen m" and dk: "distinct (cm_keys m)"
    and ns: "illegalkey m \<notin> set (map fst (stash m))"
    and nm: "numel m = of_nat (length (cm_entries m))"
    using inv by (auto simp: cm_inv_def cm_inv0_def)
  have e1: "cm_entries m1 = live m" by (simp add: cm_entries_def m1_def live_def)
  have "numel m1 = of_nat (length (live m))"
    using nm by (simp add: m1_def cm_entries_def)
  then have inv1: "cm_inv m1"
    using dl dk by (simp add: cm_inv_def cm_inv0_def cm_keys_def e1)
       (simp add: m1_def cm_entries_def)
  have "length (live m) \<le> length (cm_entries m)" by (simp add: cm_entries_def)
  then have l1: "length (cm_entries m1) \<le> e" using le unfolding e1 by simp
  from rehash_data_term_step [where e = e, OF H inv1 l1, of 0] obtain n1 m2
    where rd: "rehash_data n1 m1 0 = Some m2" by auto
  from rehash_data_correct [OF inv1 _ rd] have rp: "re_post m1 m2" by simp
  then have inv2: "cm_inv m2" and e2: "mset (cm_entries m2) = mset (live m)"
    and sp2: "same_params m1 m2"
    by (simp_all add: re_post_def e1)
  have "mset (cm_keys m2) = mset (map fst (live m))" using e2 by (simp add: cm_keys_mset)
  then have "mset (map fst (stash m) @ cm_keys m2) = mset (cm_keys m)"
    by (simp add: cm_keys_def cm_entries_def)
  then have d2: "distinct (map fst (stash m) @ cm_keys m2)"
    using dk mset_eq_imp_distinct_iff by blast
  have ik2: "illegalkey m2 \<notin> set (map fst (stash m))"
    using ns sp2 by (simp add: same_params_def m1_def)
  have "size (mset (cm_entries m2)) = size (mset (live m))" using e2 by simp
  then have l2: "length (cm_entries m2) + length (stash m) \<le> e"
    using le by (simp add: cm_entries_def)
  from rehash_stash_term_step [where e = e, OF H inv2 d2 ik2 l2] obtain n2 m'
    where rs: "rehash_stash n2 m2 (stash m) = Some m'" by blast
  let ?n = "max n1 n2"
  have "rehash_data ?n m1 0 = Some m2" using rd by (rule rehash_data_mono) simp
  moreover have "rehash_stash ?n m2 (stash m) = Some m'" using rs by (rule rehash_stash_mono) simp
  ultimately have "rehash ?n m = Some m'" by (simp add: Let_def m1_def)
  then show ?thesis by blast
qed

lemma reserve_term_step:
  assumes H: "\<And>(m :: ('k, 'v) cuckoo_map) v. cm_inv m \<Longrightarrow> fresh m v \<Longrightarrow>
                 length (cm_entries m) < e \<Longrightarrow> \<exists>n r. do_insert n m v = Some r"
    and inv: "cm_inv0 (m :: ('k, 'v) cuckoo_map)" and le: "datalen m \<le> newlen" and pos: "0 < newlen"
    and len: "length (cm_entries m) \<le> e"
  shows "\<exists>n m'. reserve n m newlen = Some m'"
proof -
  define m1 where "m1 = m\<lparr>data := data m @ replicate (newlen - datalen m)
                                         (illegalkey m, mapped_default m),
                            datalen := newlen\<rparr>"
  have dl: "datalen m = length (data m)" using inv by (simp add: cm_inv0_def)
  then have tk: "take newlen (data m) = data m" using le by simp
  have lv: "live m1 = live m" unfolding m1_def by (rule live_extend)
  then have e1: "cm_entries m1 = cm_entries m" by (simp add: cm_entries_def m1_def)
  then have "cm_inv0 m1"
    using inv dl le by (simp add: cm_inv0_def cm_keys_def) (simp add: m1_def)
  then have inv1: "cm_inv m1" using pos by (simp add: cm_inv_def) (simp add: m1_def)
  have "length (cm_entries m1) \<le> e" using len e1 by simp
  from rehash_term_step [where e = e, OF H inv1 this] obtain n m'
    where "rehash n m1 = Some m'" by blast
  then have "reserve (Suc n) m newlen = Some m'"
    using tk by (simp add: m1_def del: rehash.simps)
  then show ?thesis by blast
qed

lemma do_insert_term_all:
  "\<forall>(m :: ('k, 'v) cuckoo_map) v. cm_inv m \<longrightarrow> fresh m v \<longrightarrow> length (cm_entries m) < e \<longrightarrow>
     (\<exists>n r. do_insert n m v = Some r)"
proof (induction e)
  case 0
  then show ?case by simp
next
  case (Suc e)
  have H: "\<exists>n r. do_insert n m v = Some r"
    if "cm_inv m" "fresh m v" "length (cm_entries m) < e" for m :: "('k, 'v) cuckoo_map" and v
    using Suc.IH that by blast
  show ?case
  proof (intro allI impI)
    fix m :: "('k, 'v) cuckoo_map" and v
    assume inv: "cm_inv m" and fr: "fresh m v" and l: "length (cm_entries m) < Suc e"
    show "\<exists>n r. do_insert n m v = Some r"
    proof (cases "length (stash m) > maxstash m")
      case False
      then have "do_insert 0 m v = Some (insert_walk 100 (m\<lparr>numel := numel m + 1\<rparr>) v None)"
        by simp
      then show ?thesis by blast
    next
      case True
      have "cm_inv0 m" "datalen m \<le> datalen m * 3 div 2" "0 < datalen m * 3 div 2"
        using inv by (auto simp: cm_inv_def)
      moreover have "length (cm_entries m) \<le> e" using l by simp
      ultimately obtain n m1 where "reserve n m (datalen m * 3 div 2) = Some m1"
        using reserve_term_step [where e = e, OF H] by blast
      then have "do_insert n m v = Some (insert_walk 100 (m1\<lparr>numel := numel m1 + 1\<rparr>) v None)"
        using True by simp
      then show ?thesis by blast
    qed
  qed
qed

lemma do_insert_terminates:
  assumes "cm_inv (m :: ('k, 'v) cuckoo_map)" "fresh m v"
  shows "\<exists>n it m'. do_insert n m v = Some (it, m')"
proof -
  have "length (cm_entries m) < Suc (length (cm_entries m))" by simp
  with do_insert_term_all [of "Suc (length (cm_entries m))"] assms
  obtain n r where "do_insert n m v = Some r" by blast
  then show ?thesis by (cases r) blast
qed

lemma reserve_terminates:
  assumes "cm_inv0 (m :: ('k, 'v) cuckoo_map)" "datalen m \<le> newlen" "0 < newlen"
  shows "\<exists>n m'. reserve n m newlen = Some m'"
proof -
  define e where "e = length (cm_entries m)"
  have H: "\<exists>n r. do_insert n m v = Some r"
    if "cm_inv m" "fresh m v" "length (cm_entries m) < e"
    for m :: "('k, 'v) cuckoo_map" and v
    using do_insert_term_all [of e] that by blast
  have "length (cm_entries m) \<le> e" by (simp add: e_def)
  from reserve_term_step [where e = e, OF H assms this] show ?thesis .
qed

subsection \<open>Lookup\<close>

lemma count_iff_find: "cuckoo_count m k \<longleftrightarrow> cuckoo_find m k \<noteq> cuckoo_end m"
  by (simp add: cuckoo_count_def cuckoo_find_def cuckoo_end_def stash_find_def split: option.splits)

lemma absent_not_found:
  assumes "cm_inv m" "k \<noteq> illegalkey m" "k \<notin> set (cm_keys m)"
  shows "cuckoo_find m k = cuckoo_end m" "\<not> cuckoo_count m k"
proof -
  have "fresh m (k, mapped_default m)" using assms(2,3) by (simp add: fresh_def)
  from fresh_find_end [OF assms(1) this] show "cuckoo_find m k = cuckoo_end m" by simp
  then show "\<not> cuckoo_count m k" by (simp add: count_iff_find)
qed

lemma live_slot:
  assumes "e \<in> set (live m)"
  shows "\<exists>i < length (data m). data m ! i = e \<and> fst e \<noteq> illegalkey m"
  using assms by (auto simp: live_def in_set_conv_nth)

lemma distinct_fst_unique:
  assumes "distinct (map fst xs)" "(k, x) \<in> set xs" "(k, y) \<in> set xs"
  shows "x = y"
  using assms by (metis eq_key_imp_eq_value)

lemma find_stash_entry:
  assumes "distinct (map fst s)" "(k, x) \<in> set s"
  shows "List.find (\<lambda>e. fst e = k) s = Some (k, x)"
proof (cases "List.find (\<lambda>e. fst e = k) s")
  case None
  from find_NoneD [OF None assms(2)] show ?thesis by simp
next
  case (Some e)
  from find_SomeD [OF Some] have "e \<in> set s" "fst e = k" by auto
  then have "(k, snd e) \<in> set s" by (metis prod.collapse)
  from distinct_fst_unique [OF assms(1) this assms(2)] \<open>fst e = k\<close> have "e = (k, x)"
    by (metis prod.collapse)
  then show ?thesis using Some by simp
qed

lemma present_found:
  assumes "cm_wf m" "k \<noteq> illegalkey m" "(k, x) \<in> set (cm_entries m)"
  shows "iter_deref m (cuckoo_find m k) = Some (k, x)"
proof -
  have inv: "cm_inv m" and mp: "misplaced m = {}" using assms(1) by (simp_all add: cm_wf_def)
  have dl: "datalen m = length (data m)" "0 < datalen m" and dk: "distinct (cm_keys m)"
    using inv by (auto simp: cm_inv_def cm_inv0_def)
  have dlive: "distinct (map fst (live m))" and dst: "distinct (map fst (stash m))"
    and disj: "set (map fst (live m)) \<inter> set (map fst (stash m)) = {}"
    using dk by (simp_all add: cm_keys_def cm_entries_def)
  show ?thesis
  proof (cases "(k, x) \<in> set (live m)")
    case True
    from live_slot [OF True] obtain i where i: "i < length (data m)" "data m ! i = (k, x)" by auto
    have "i \<notin> misplaced m" using mp by simp
    then have ic: "i \<in> set (candidate_slots m k)" using i assms(2) by (simp add: misplaced_def)
    then obtain idx
      where f: "List.find (\<lambda>idx. fst (data m ! idx) = k) (candidate_slots m k) = Some idx"
      using i(2) by (cases "List.find (\<lambda>idx. fst (data m ! idx) = k) (candidate_slots m k)")
        (auto dest: find_NoneD)
    from find_SomeD [OF f] have idx: "idx \<in> set (candidate_slots m k)" "fst (data m ! idx) = k"
      by auto
    have lt: "idx < length (data m)" using candidate_slots_less [OF dl(2) idx(1)] dl(1) by simp
    from distinct_filter_nth [OF dlive [unfolded live_def] lt i(1)] idx(2) i(2) assms(2)
    have "idx = i" by simp
    then show ?thesis using f i dl by (simp add: cuckoo_find_def iter_deref_def)
  next
    case False
    then have st: "(k, x) \<in> set (stash m)" using assms(3) by (simp add: cm_entries_def)
    then have ks: "k \<in> set (map fst (stash m))" by force
    then have nl: "k \<notin> set (map fst (live m))" using disj by auto
    have "\<not> fst (data m ! idx) = k" if "idx \<in> set (candidate_slots m k)" for idx
    proof
      assume eq: "fst (data m ! idx) = k"
      have "idx < length (data m)" using candidate_slots_less [OF dl(2) that] dl(1) by simp
      then have "data m ! idx \<in> set (live m)" using eq assms(2) by (simp add: live_def)
      then have "k \<in> fst ` set (live m)" using eq by force
      then show False using nl by simp
    qed
    then have "List.find (\<lambda>idx. fst (data m ! idx) = k) (candidate_slots m k) = None"
      by (simp add: find_None_iff)
    then have "cuckoo_find m k = StashIter (Some k)"
      using ks by (simp add: cuckoo_find_def stash_find_def)
    then show ?thesis using find_stash_entry [OF dst st] by (simp add: iter_deref_def)
  qed
qed

lemma present_find_not_end:
  assumes "cm_wf m" "k \<noteq> illegalkey m" "(k, x) \<in> set (cm_entries m)"
  shows "cuckoo_find m k \<noteq> cuckoo_end m"
  using present_found [OF assms] by (auto simp: iter_deref_def cuckoo_end_def)

lemma found_is_entry:
  assumes "cm_inv m" "k \<noteq> illegalkey m" "cuckoo_find m k \<noteq> cuckoo_end m"
  shows "\<exists>x. iter_deref m (cuckoo_find m k) = Some (k, x) \<and> (k, x) \<in> set (cm_entries m)"
proof -
  have dl: "datalen m = length (data m)" "0 < datalen m" and dk: "distinct (cm_keys m)"
    using assms(1) by (auto simp: cm_inv_def cm_inv0_def)
  have dst: "distinct (map fst (stash m))" using dk by (simp add: cm_keys_def cm_entries_def)
  show ?thesis
  proof (cases "List.find (\<lambda>idx. fst (data m ! idx) = k) (candidate_slots m k)")
    case (Some idx)
    from find_SomeD [OF Some] have idx: "idx \<in> set (candidate_slots m k)" "fst (data m ! idx) = k"
      by auto
    have lt: "idx < length (data m)" using candidate_slots_less [OF dl(2) idx(1)] dl(1) by simp
    then have "data m ! idx \<in> set (live m)" using idx(2) assms(2) by (simp add: live_def)
    moreover have "data m ! idx = (k, snd (data m ! idx))" using idx(2) by (metis prod.collapse)
    ultimately show ?thesis
      using Some lt dl by (auto simp: cuckoo_find_def iter_deref_def cm_entries_def)
  next
    case None
    then have "k \<in> set (map fst (stash m))"
      using assms(3) by (simp add: cuckoo_find_def cuckoo_end_def stash_find_def split: if_splits)
    then obtain x where x: "(k, x) \<in> set (stash m)" by auto
    then have "cuckoo_find m k = StashIter (Some k)"
      using None by (force simp: cuckoo_find_def stash_find_def)
    then show ?thesis
      using find_stash_entry [OF dst x] x by (auto simp: iter_deref_def cm_entries_def)
  qed
qed

subsection \<open>Construction\<close>

lemma rehash_data_all_illegal:
  assumes "datalen m = length (data m)"
    and "\<forall>j < datalen m. i \<le> j \<longrightarrow> fst (data m ! j) = illegalkey m"
    and "datalen m - i \<le> n"
  shows "rehash_data n m i = Some m"
  using assms(2,3)
proof (induction n arbitrary: i)
  case 0
  then show ?case by simp
next
  case (Suc n)
  show ?case
  proof (cases "i < datalen m")
    case False
    then show ?thesis by (simp add: rehash_data_done)
  next
    case True
    then have "fst (data m ! i) = illegalkey m" using Suc.prems(1) by simp
    then have "rehash_data (Suc n) m i = rehash_data n m (i + 1)"
      using True by (intro rehash_data_skip) simp_all
    moreover have "rehash_data n m (i + 1) = Some m"
      using Suc.prems by (intro Suc.IH) auto
    ultimately show ?thesis by simp
  qed
qed

lemma cuckoo_map_new_eq:
  assumes "129 \<le> n"
  shows "cuckoo_map_new n ik stashsize h seed kr dflt = Some (empty_map ik stashsize h seed kr dflt)"
proof -
  obtain k where k: "n = Suc k" "128 \<le> k" using assms by (cases n) auto
  let ?m = "empty_map ik stashsize h seed kr dflt"
  have "rehash_data k ?m 0 = Some ?m"
    using k(2) by (intro rehash_data_all_illegal) (simp_all add: empty_map_def)
  then have "rehash k ?m = Some ?m"
    by (simp add: Let_def) (simp add: empty_map_def)
  then show ?thesis
    unfolding cuckoo_map_new_def k(1) by (simp add: empty_map_def del: rehash.simps)
qed

lemma empty_map_wf: "cm_wf (empty_map ik stashsize h seed kr dflt)"
  by (simp add: cm_wf_def cm_inv_def cm_inv0_def misplaced_def cm_keys_def cm_entries_def live_def
      empty_map_def)

lemma empty_map_entries: "cm_entries (empty_map ik stashsize h seed kr dflt) = []"
  by (simp add: cm_entries_def live_def empty_map_def)

lemma cuckoo_map_new_wf:
  assumes "cuckoo_map_new n ik stashsize h seed kr dflt = Some (m :: ('k, 'v) cuckoo_map)"
  shows "cm_wf m" "cm_entries m = []" "illegalkey m = ik"
proof -
  let ?m0 = "\<lparr>illegalkey = ik, numel = 0, maxstash = stashsize, data = [], datalen = 0,
              stash = [], drng = seed, kranddist = kr, hashfun = h, mapped_default = dflt\<rparr>"
  have i0: "cm_inv0 ?m0" by (simp add: cm_inv0_def cm_keys_def cm_entries_def live_def)
  have r: "reserve n ?m0 128 = Some m" using assms by (simp add: cuckoo_map_new_def)
  from reserve_correct [OF i0 _ _ r] have rp: "re_post ?m0 m" by simp
  then show "cm_wf m" by (simp add: re_post_def cm_wf_def)
  have "mset (cm_entries m) = {#}" using rp by (simp add: re_post_def cm_entries_def live_def)
  then show "cm_entries m = []" by simp
  show "illegalkey m = ik" using rp by (simp add: re_post_def same_params_def)
qed

subsection \<open>\<open>operator[]\<close> and the write through its reference\<close>

lemma index_spec:
  assumes wf: "cm_wf (m :: ('k, 'v) cuckoo_map)" and k: "k \<noteq> illegalkey m"
    and ix: "cuckoo_index n m k = Some (it, m1)"
  shows "cm_wf m1 \<and> same_params m m1 \<and>
         (\<exists>x. iter_deref m1 it = Some (k, x) \<and> (k, x) \<in> set (cm_entries m1) \<and>
              (k \<in> set (cm_keys m) \<longrightarrow> m1 = m) \<and>
              (k \<notin> set (cm_keys m) \<longrightarrow>
                 x = mapped_default m \<and>
                 mset (cm_entries m1) = add_mset (k, x) (mset (cm_entries m))))"
proof (cases "cuckoo_find m k = cuckoo_end m")
  case True
  have inv: "cm_inv m" using wf by (simp add: cm_wf_def)
  have nk: "k \<notin> set (cm_keys m)"
  proof
    assume "k \<in> set (cm_keys m)"
    then obtain x where "(k, x) \<in> set (cm_entries m)" by (auto simp: cm_keys_def)
    from present_find_not_end [OF wf k this] True show False by simp
  qed
  then have fr: "fresh m (k, mapped_default m)" using k by (simp add: fresh_def)
  have "do_insert n m (k, mapped_default m) = Some (it, m1)"
    using ix True by (simp add: cuckoo_index_def Let_def del: do_insert.simps)
  from do_insert_correct [OF inv fr this] have ip: "ins_post m (k, mapped_default m) it m1" .
  then have "cm_wf m1" using wf by (auto simp: ins_post_def cm_wf_def)
  moreover have "(k, mapped_default m) \<in> set (cm_entries m1)"
    using ip by (metis ins_post_def set_mset_add_mset_insert insertI1 set_mset_mset)
  ultimately show ?thesis using ip nk by (auto simp: ins_post_def)
next
  case False
  have inv: "cm_inv m" using wf by (simp add: cm_wf_def)
  have eq: "it = cuckoo_find m k" "m1 = m"
    using ix False by (auto simp: cuckoo_index_def Let_def simp del: do_insert.simps)
  from found_is_entry [OF inv k False] obtain x
    where x: "iter_deref m (cuckoo_find m k) = Some (k, x)" "(k, x) \<in> set (cm_entries m)" by auto
  then have "k \<in> set (cm_keys m)" by (force simp: cm_keys_def)
  then show ?thesis using wf x eq by auto
qed

lemma index_returns:
  assumes wf: "cm_wf (m :: ('k, 'v) cuckoo_map)" and k: "k \<noteq> illegalkey m"
  shows "\<exists>n it m1. cuckoo_index n m k = Some (it, m1)"
proof (cases "cuckoo_find m k = cuckoo_end m")
  case True
  have inv: "cm_inv m" using wf by (simp add: cm_wf_def)
  have "k \<notin> set (cm_keys m)"
  proof
    assume "k \<in> set (cm_keys m)"
    then obtain x where "(k, x) \<in> set (cm_entries m)" by (auto simp: cm_keys_def)
    from present_find_not_end [OF wf k this] True show False by simp
  qed
  then have fr: "fresh m (k, mapped_default m)" using k by (simp add: fresh_def)
  from do_insert_terminates [OF inv fr] obtain n it m1
    where "do_insert n m (k, mapped_default m) = Some (it, m1)" by blast
  then have "cuckoo_index n m k = Some (it, m1)"
    using True by (simp add: cuckoo_index_def Let_def del: do_insert.simps)
  then show ?thesis by blast
next
  case False
  then have "cuckoo_index 0 m k = Some (cuckoo_find m k, m)"
    by (simp add: cuckoo_index_def Let_def del: do_insert.simps)
  then show ?thesis by blast
qed

lemma keys_live_filter: "map fst (live m) = filter (\<lambda>k. k \<noteq> illegalkey m) (map fst (data m))"
  by (simp add: live_def filter_map comp_def)

lemma deref_cases:
  assumes "iter_deref m it = Some (k, x)"
  shows "(\<exists>p. it = VecIter p \<and> p < datalen m \<and> data m ! p = (k, x)) \<or>
         (it = StashIter (Some k) \<and> (k, x) \<in> set (stash m))"
proof (cases it)
  case (VecIter p)
  then show ?thesis using assms by (simp add: iter_deref_def split: if_splits)
next
  case (StashIter ok)
  show ?thesis
  proof (cases ok)
    case None
    then show ?thesis using assms StashIter by (simp add: iter_deref_def)
  next
    case (Some k')
    then have "List.find (\<lambda>e. fst e = k') (stash m) = Some (k, x)"
      using assms StashIter by (simp add: iter_deref_def)
    from find_SomeD [OF this] show ?thesis using StashIter Some by auto
  qed
qed

lemma ref_write_spec:
  assumes wf: "cm_wf m" and k: "k \<noteq> illegalkey m" and d: "iter_deref m it = Some (k, x)"
  shows "cm_wf (ref_write m it y) \<and> (k, y) \<in> set (cm_entries (ref_write m it y)) \<and>
         cm_keys (ref_write m it y) = cm_keys m \<and> same_params m (ref_write m it y)"
proof -
  have inv: "cm_inv m" and mp: "misplaced m = {}" using wf by (simp_all add: cm_wf_def)
  have dl: "datalen m = length (data m)" using inv by (simp add: cm_inv_def cm_inv0_def)
  from deref_cases [OF d] show ?thesis
  proof
    assume "\<exists>p. it = VecIter p \<and> p < datalen m \<and> data m ! p = (k, x)"
    then obtain p where p: "it = VecIter p" "p < datalen m" "data m ! p = (k, x)" by auto
    let ?m' = "m\<lparr>data := (data m)[p := (k, y)]\<rparr>"
    have w: "ref_write m it y = ?m'" using p by (simp add: ref_write_def)
    have "map fst ((data m)[p := (k, y)]) = (map fst (data m))[p := k]" by (simp add: map_update)
    also have "\<dots> = map fst (data m)" using p dl by (metis fst_conv list_update_id nth_map)
    finally have mf: "map fst (data ?m') = map fst (data m)" by simp
    have fk: "fst (data ?m' ! i) = fst (data m ! i)" if "i < length (data m)" for i
      using that p by (cases "i = p") simp_all
    have lk: "map fst (live ?m') = map fst (live m)"
      using mf by (simp add: keys_live_filter)
    then have ck: "cm_keys ?m' = cm_keys m" by (simp add: cm_keys_def cm_entries_def)
    have "length (map fst (cm_entries ?m')) = length (map fst (cm_entries m))"
      using ck by (simp add: cm_keys_def)
    then have le: "length (cm_entries ?m') = length (cm_entries m)" by simp
    have inv': "cm_inv ?m'"
      using inv ck le by (auto simp: cm_inv_def cm_inv0_def)
    have mp': "misplaced ?m' = {}"
      using mp fk by (auto simp: misplaced_def)
    have "(k, y) \<in> set (live ?m')"
      using p dl k by (simp add: live_def) (metis length_list_update nth_list_update_eq nth_mem)
    then show ?thesis using inv' mp' ck by (simp add: w cm_wf_def cm_entries_def same_params_def)
  next
    assume a: "it = StashIter (Some k) \<and> (k, x) \<in> set (stash m)"
    let ?s = "map (\<lambda>e. if fst e = k then (k, y) else e) (stash m)"
    let ?m' = "m\<lparr>stash := ?s\<rparr>"
    have w: "ref_write m it y = ?m'" using a by (simp add: ref_write_def)
    have sk: "map fst ?s = map fst (stash m)" by (induction "stash m") auto
    then have ck: "cm_keys ?m' = cm_keys m" by (simp add: cm_keys_def cm_entries_def)
    have "length (map fst ?s) = length (map fst (stash m))" using sk by simp
    then have "length (cm_entries ?m') = length (cm_entries m)" by (simp add: cm_entries_def)
    then have inv': "cm_inv ?m'"
      using inv ck sk by (auto simp: cm_inv_def cm_inv0_def)
    have "(k, y) \<in> set ?s" using a by force
    then show ?thesis using inv' mp ck by (simp add: w cm_wf_def cm_entries_def same_params_def)
  qed
qed

subsection \<open>Erase, insert, clear\<close>

lemma filter_key_length:
  "distinct (map fst s) \<Longrightarrow> k \<in> set (map fst s) \<Longrightarrow>
     Suc (length (filter (\<lambda>e. fst e \<noteq> k) s)) = length s"
proof (induction s)
  case Nil
  then show ?case by simp
next
  case (Cons a s)
  show ?case
  proof (cases "fst a = k")
    case True
    then have "k \<notin> set (map fst s)" using Cons.prems(1) by auto
    then have "\<forall>e \<in> set s. fst e \<noteq> k" by force
    then have "filter (\<lambda>e. fst e \<noteq> k) s = s" by (simp add: filter_id_conv)
    then show ?thesis using True by simp
  next
    case False
    then show ?thesis using Cons by auto
  qed
qed

lemma erase_spec:
  assumes wf: "cm_wf (m :: ('k, 'v) cuckoo_map)"
  shows "cm_wf (cuckoo_erase m k) \<and> same_params m (cuckoo_erase m k) \<and>
         (k \<noteq> illegalkey m \<longrightarrow> k \<notin> set (cm_keys (cuckoo_erase m k)))"
proof -
  have inv: "cm_inv m" and mp: "misplaced m = {}" using wf by (simp_all add: cm_wf_def)
  have dl: "datalen m = length (data m)" "0 < datalen m" and dk: "distinct (cm_keys m)"
    and ns: "illegalkey m \<notin> set (map fst (stash m))"
    and nm: "numel m = of_nat (length (cm_entries m))"
    using inv by (auto simp: cm_inv_def cm_inv0_def)
  show ?thesis
  proof (cases "cuckoo_find m k")
    case (VecIter idx)
    then have f: "List.find (\<lambda>idx. fst (data m ! idx) = k) (candidate_slots m k) = Some idx"
      by (auto simp: cuckoo_find_def split: option.splits)
    from find_SomeD [OF f] have idx: "idx \<in> set (candidate_slots m k)" "fst (data m ! idx) = k"
      by auto
    have lt: "idx < datalen m" using candidate_slots_less [OF dl(2) idx(1)] .
    show ?thesis
    proof (cases "k = illegalkey m")
      case True
      then have "cuckoo_erase m k = m"
        using VecIter idx by (simp add: cuckoo_erase_def cuckoo_erase_iter_def cuckoo_end_def)
      then show ?thesis using wf True by simp
    next
      case False
      define m1 where "m1 = m\<lparr>data := (data m)[idx := (illegalkey m, mapped_default m)],
                                numel := numel m - 1\<rparr>"
      have e: "cuckoo_erase m k = m1"
        using VecIter idx False
        by (simp add: cuckoo_erase_def cuckoo_erase_iter_def cuckoo_end_def m1_def)
      have nk: "fst (data m ! idx) \<noteq> illegalkey m" using idx False by simp
      note c = cleared_inv [OF inv lt nk, folded m1_def]
      have "misplaced m1 = {}" using c(3) mp by auto
      moreover have "k \<notin> set (cm_keys m1)" using c(2) idx(2) by (simp add: fresh_def)
      ultimately show ?thesis using c(1,5) by (simp add: e cm_wf_def)
    qed
  next
    case (StashIter ok)
    show ?thesis
    proof (cases ok)
      case None
      then have e: "cuckoo_erase m k = m"
        using StashIter by (simp add: cuckoo_erase_def cuckoo_end_def)
      have "k \<notin> set (cm_keys m)" if "k \<noteq> illegalkey m"
      proof
        assume "k \<in> set (cm_keys m)"
        then obtain x where "(k, x) \<in> set (cm_entries m)" by (auto simp: cm_keys_def)
        from present_find_not_end [OF wf that this] StashIter None show False
          by (simp add: cuckoo_end_def)
      qed
      then show ?thesis using wf e by simp
    next
      case (Some k')
      then have ks: "k \<in> set (map fst (stash m))" and kk: "k' = k"
        using StashIter by (auto simp: cuckoo_find_def stash_find_def split: option.splits if_splits)
      define m1 where "m1 = m\<lparr>numel := numel m - 1,
                                stash := filter (\<lambda>e. fst e \<noteq> k) (stash m)\<rparr>"
      have e: "cuckoo_erase m k = m1"
        using StashIter Some kk
        by (simp add: cuckoo_erase_def cuckoo_erase_iter_def cuckoo_end_def m1_def)
      have dst: "distinct (map fst (stash m))" using dk by (simp add: cm_keys_def cm_entries_def)
      have l: "Suc (length (filter (\<lambda>e. fst e \<noteq> k) (stash m))) = length (stash m)"
        using dst ks by (rule filter_key_length)
      have k1: "cm_keys m1 = filter (\<lambda>x. x \<noteq> k) (cm_keys m)"
      proof -
        have "k \<notin> set (map fst (live m))" using dk ks by (auto simp: cm_keys_def cm_entries_def)
        then have "\<forall>x \<in> set (map fst (live m)). x \<noteq> k" by blast
        then have "filter (\<lambda>x. x \<noteq> k) (map fst (live m)) = map fst (live m)"
          by (simp only: filter_id_conv)
        then show ?thesis
          by (simp add: cm_keys_def cm_entries_def m1_def filter_map comp_def)
      qed
      have le: "length (cm_entries m) = Suc (length (cm_entries m1))"
        using l by (simp add: cm_entries_def m1_def)
      have "numel m1 = numel m - 1" by (simp add: m1_def)
      also have "\<dots> = of_nat (Suc (length (cm_entries m1))) - 1" by (simp only: nm le)
      also have "\<dots> = of_nat (length (cm_entries m1))" by simp
      finally have n1: "numel m1 = of_nat (length (cm_entries m1))" .
      have "illegalkey m \<notin> set (map fst (stash m1))" using ns by (auto simp: m1_def)
      then have "cm_inv m1"
        using dl dk n1 k1 by (simp add: cm_inv_def cm_inv0_def) (simp add: m1_def)
      moreover have "misplaced m1 = {}" using mp by (simp add: m1_def misplaced_def candidate_slots_def)
      ultimately show ?thesis using k1 by (simp add: e cm_wf_def) (simp add: m1_def same_params_def)
    qed
  qed
qed

lemma erase_not_counted:
  assumes "cm_wf (m :: ('k, 'v) cuckoo_map)" "k \<noteq> illegalkey m"
  shows "\<not> cuckoo_count (cuckoo_erase m k) k"
    and "cuckoo_find (cuckoo_erase m k) k = cuckoo_end (cuckoo_erase m k)"
proof -
  from erase_spec [OF assms(1), of k] assms(2)
  have "cm_inv (cuckoo_erase m k)" "k \<noteq> illegalkey (cuckoo_erase m k)"
    "k \<notin> set (cm_keys (cuckoo_erase m k))"
    by (simp_all add: cm_wf_def same_params_def)
  from absent_not_found [OF this]
  show "\<not> cuckoo_count (cuckoo_erase m k) k"
    and "cuckoo_find (cuckoo_erase m k) k = cuckoo_end (cuckoo_erase m k)" by simp_all
qed

lemma api_insert_spec:
  assumes wf: "cm_wf (m :: ('k, 'v) cuckoo_map)" and k: "fst v \<noteq> illegalkey m"
    and ci: "cuckoo_insert n m v = Some (it, b, m')"
  shows "cm_wf m' \<and> same_params m m' \<and>
         (if fst v \<in> set (cm_keys m) then m' = m \<and> \<not> b
          else b \<and> mset (cm_entries m') = add_mset v (mset (cm_entries m)) \<and>
               iter_deref m' it = Some v)"
proof (cases "fst v \<in> set (cm_keys m)")
  case True
  then obtain x where "(fst v, x) \<in> set (cm_entries m)" by (auto simp: cm_keys_def)
  from present_find_not_end [OF wf k this] have "m' = m" "\<not> b"
    using ci by (auto simp: Let_def simp del: do_insert.simps)
  then show ?thesis using wf True by simp
next
  case False
  then have fr: "fresh m v" using k by (simp add: fresh_def)
  have inv: "cm_inv m" using wf by (simp add: cm_wf_def)
  from cuckoo_insert_correct [OF inv fr ci] have "ins_post m v it m'" b by simp_all
  then show ?thesis using wf False by (auto simp: ins_post_def cm_wf_def)
qed

lemma api_insert_returns:
  assumes wf: "cm_wf (m :: ('k, 'v) cuckoo_map)" and k: "fst v \<noteq> illegalkey m"
  shows "\<exists>n it b m'. cuckoo_insert n m v = Some (it, b, m')"
proof (cases "cuckoo_find m (fst v) \<noteq> cuckoo_end m")
  case True
  then have "cuckoo_insert 0 m v = Some (cuckoo_find m (fst v), False, m)"
    by (simp add: Let_def del: do_insert.simps)
  then show ?thesis by blast
next
  case False
  have "fst v \<notin> set (cm_keys m)"
  proof
    assume "fst v \<in> set (cm_keys m)"
    then obtain x where "(fst v, x) \<in> set (cm_entries m)" by (auto simp: cm_keys_def)
    from present_find_not_end [OF wf k this] False show False by simp
  qed
  then have fr: "fresh m v" using k by (simp add: fresh_def)
  have inv: "cm_inv m" using wf by (simp add: cm_wf_def)
  from do_insert_terminates [OF inv fr] obtain n it m' where "do_insert n m v = Some (it, m')"
    by blast
  then have "cuckoo_insert n m v = Some (it, True, m')"
    using False by (simp add: Let_def del: do_insert.simps)
  then show ?thesis by blast
qed

lemma clear_spec:
  assumes "cm_wf (m :: ('k, 'v) cuckoo_map)" "cuckoo_clear n m = Some m'"
  shows "cm_wf m' \<and> cm_entries m' = [] \<and> same_params m m'"
proof -
  have i0: "cm_inv0 (destroy_all m)"
    using assms(1)
    by (simp add: cm_inv0_def cm_wf_def cm_keys_def cm_entries_def live_def destroy_all_def)
  have r: "reserve n (destroy_all m) 128 = Some m'" using assms(2) by (simp add: cuckoo_clear_def)
  from reserve_correct [OF i0 _ _ r] have rp: "re_post (destroy_all m) m'"
    by (simp add: destroy_all_def)
  have "mset (cm_entries m') = {#}"
    using rp by (simp add: re_post_def cm_entries_def live_def destroy_all_def)
  then have "cm_entries m' = []" by simp
  then show ?thesis using rp by (simp add: re_post_def cm_wf_def same_params_def destroy_all_def)
qed

subsection \<open>Reachable states\<close>

lemma reachable_wf: "reachable (m :: ('k, 'v) cuckoo_map) \<Longrightarrow> cm_wf m"
proof (induction rule: reachable.induct)
  case (new n ik stashsize h seed kr dflt m)
  then show ?case by (rule cuckoo_map_new_wf)
next
  case (index m k n it m')
  from index_spec [OF index.IH index.hyps(2,3)] show ?case by simp
next
  case (index_write m k n it m' x)
  from index_spec [OF index_write.IH index_write.hyps(2,3)] obtain y
    where "cm_wf m'" "same_params m m'" "iter_deref m' it = Some (k, y)" by auto
  moreover from this have "k \<noteq> illegalkey m'"
    using index_write.hyps(2) by (simp add: same_params_def)
  ultimately show ?case using ref_write_spec [of m' k it y x] by simp
next
  case (insert m v n it b m')
  from api_insert_spec [OF insert.IH insert.hyps(2,3)] show ?case by simp
next
  case (erase m k)
  from erase_spec [OF erase.IH] show ?case by simp
next
  case (clear m n m')
  from clear_spec [OF clear.IH clear.hyps(2)] show ?case by simp
qed

text \<open>
  C8 (table round trip).  In every reachable state of the map and for every key \<open>k\<close> other
  than the sentinel: \<open>operator[]\<close> on \<open>k\<close> returns; after a value \<open>x\<close> is assigned through
  the reference it returned, \<open>find(k)\<close> points to the entry \<open>(k, x)\<close>, and a further
  \<open>operator[]\<close> on \<open>k\<close> returns that entry and leaves the map as it is; after \<open>erase(k)\<close>,
  \<open>count(k)\<close> is false and \<open>find(k)\<close> is \<open>end()\<close>.
\<close>
theorem table_round_trip:
  assumes "reachable (m :: ('k, 'v) cuckoo_map)" and "k \<noteq> illegalkey m"
  shows "(\<exists>n it m1. cuckoo_index n m k = Some (it, m1)) \<and>
         (\<forall>n it m1. cuckoo_index n m k = Some (it, m1) \<longrightarrow>
            iter_deref (ref_write m1 it x) (cuckoo_find (ref_write m1 it x) k) = Some (k, x) \<and>
            cuckoo_index n (ref_write m1 it x) k
              = Some (cuckoo_find (ref_write m1 it x) k, ref_write m1 it x)) \<and>
         \<not> cuckoo_count (cuckoo_erase m k) k \<and>
         cuckoo_find (cuckoo_erase m k) k = cuckoo_end (cuckoo_erase m k)"
proof -
  have wf: "cm_wf m" using assms(1) by (rule reachable_wf)
  have a: "\<exists>n it m1. cuckoo_index n m k = Some (it, m1)"
    using wf assms(2) by (rule index_returns)
  have b: "iter_deref (ref_write m1 it x) (cuckoo_find (ref_write m1 it x) k) = Some (k, x) \<and>
           cuckoo_index n (ref_write m1 it x) k
             = Some (cuckoo_find (ref_write m1 it x) k, ref_write m1 it x)"
    if ix: "cuckoo_index n m k = Some (it, m1)" for n it m1
  proof -
    from index_spec [OF wf assms(2) ix] obtain y
      where wf1: "cm_wf m1" and sp: "same_params m m1" and d: "iter_deref m1 it = Some (k, y)"
      by auto
    have k1: "k \<noteq> illegalkey m1" using sp assms(2) by (simp add: same_params_def)
    let ?m2 = "ref_write m1 it x"
    from ref_write_spec [OF wf1 k1 d, of x]
    have wf2: "cm_wf ?m2" and e: "(k, x) \<in> set (cm_entries ?m2)" and sp2: "same_params m1 ?m2"
      by simp_all
    have k2: "k \<noteq> illegalkey ?m2" using sp2 k1 by (simp add: same_params_def)
    have r: "iter_deref ?m2 (cuckoo_find ?m2 k) = Some (k, x)"
      using wf2 k2 e by (rule present_found)
    have "cuckoo_find ?m2 k \<noteq> cuckoo_end ?m2" using wf2 k2 e by (rule present_find_not_end)
    then have "cuckoo_index n ?m2 k = Some (cuckoo_find ?m2 k, ?m2)"
      by (simp add: cuckoo_index_def Let_def del: do_insert.simps)
    then show ?thesis using r by simp
  qed
  from a b erase_not_counted [OF wf assms(2)] show ?thesis by blast
qed

lemma reachable_empty_map: "reachable (empty_map ik stashsize h seed kr dflt)"
  using cuckoo_map_new_eq [of 129 ik stashsize h seed kr dflt] by (auto intro: reachable.new)

theorem table_round_trip_witness:
  "reachable (empty_map (0::nat) 8 of_nat 0 (Pair 0) (0::nat)) \<and>
   (5::nat) \<noteq> illegalkey (empty_map (0::nat) 8 of_nat 0 (Pair 0) (0::nat)) \<and>
   (\<exists>n it m1. cuckoo_index n (empty_map (0::nat) 8 of_nat 0 (Pair 0) (0::nat)) 5 = Some (it, m1) \<and>
      iter_deref (ref_write m1 it 7) (cuckoo_find (ref_write m1 it 7) 5) = Some (5, 7)) \<and>
   \<not> cuckoo_count (cuckoo_erase (empty_map (0::nat) 8 of_nat 0 (Pair 0) (0::nat)) 5) 5"
proof -
  let ?m = "empty_map (0::nat) 8 of_nat 0 (Pair 0) (0::nat)"
  have r: "reachable ?m" by (rule reachable_empty_map)
  have k: "(5::nat) \<noteq> illegalkey ?m" by (simp add: empty_map_def)
  from table_round_trip [OF r k, of 7] r k show ?thesis by blast
qed

text \<open>
  C10 (spurious hit on the sentinel).  The constructor returns, and in the map it returns,
  which has no entry and in particular not the sentinel as a key, \<open>count(illegalkey)\<close> is true
  and \<open>find(illegalkey)\<close> differs from \<open>end()\<close>.  In any state, \<open>count(illegalkey)\<close> is true
  and \<open>find(illegalkey)\<close> differs from \<open>end()\<close> whenever one of the \<open>CuckooK\<close> candidate slots
  of the sentinel is empty.
\<close>
theorem sentinel_spurious_hit:
  "cuckoo_map_new 129 ik stashsize h seed kr dflt = Some (empty_map ik stashsize h seed kr dflt) \<and>
   (\<forall>n (m :: ('k, 'v) cuckoo_map). cuckoo_map_new n ik stashsize h seed kr dflt = Some m \<longrightarrow>
      cm_entries m = [] \<and> ik \<notin> set (cm_keys m) \<and>
      cuckoo_count m ik \<and> cuckoo_find m ik \<noteq> cuckoo_end m) \<and>
   ((\<exists>j < CuckooK. fst (data m' ! compute_hash (datalen m') (hashfun m' (illegalkey m')) j)
                     = illegalkey m') \<longrightarrow>
      cuckoo_count m' (illegalkey m') \<and> cuckoo_find m' (illegalkey m') \<noteq> cuckoo_end m')"
  for m' :: "('k, 'v) cuckoo_map"
proof -
  have a: "cuckoo_map_new 129 ik stashsize h seed kr dflt
             = Some (empty_map ik stashsize h seed kr dflt)"
    by (rule cuckoo_map_new_eq) simp
  have c: "cuckoo_count m' (illegalkey m') \<and> cuckoo_find m' (illegalkey m') \<noteq> cuckoo_end m'"
    if "\<exists>j < CuckooK. fst (data m' ! compute_hash (datalen m') (hashfun m' (illegalkey m')) j)
                     = illegalkey m'"
    for m' :: "('k, 'v) cuckoo_map"
  proof -
    from that obtain j where j: "j < CuckooK"
      "fst (data m' ! compute_hash (datalen m') (hashfun m' (illegalkey m')) j) = illegalkey m'"
      by blast
    from candidate_slots_mem [OF j(1)] j(2) have "cuckoo_count m' (illegalkey m')"
      by (rule count_candidate)
    then show ?thesis by (simp add: count_iff_find)
  qed
  have b: "cm_entries m = [] \<and> ik \<notin> set (cm_keys m) \<and>
           cuckoo_count m ik \<and> cuckoo_find m ik \<noteq> cuckoo_end m"
    if n: "cuckoo_map_new n ik stashsize h seed kr dflt = Some m"
    for n and m :: "('k, 'v) cuckoo_map"
  proof -
    note w = cuckoo_map_new_wf [OF n]
    have dl: "datalen m = length (data m)" "0 < datalen m"
      using w(1) by (auto simp: cm_wf_def cm_inv_def cm_inv0_def)
    let ?i = "compute_hash (datalen m) (hashfun m (illegalkey m)) 0"
    have "?i < length (data m)" using compute_hash_less [OF dl(2)] dl(1) by simp
    then have "data m ! ?i \<in> set (data m)" by simp
    moreover have "live m = []" using w(2) by (simp add: cm_entries_def)
    ultimately have "fst (data m ! ?i) = illegalkey m"
      by (auto simp: live_def filter_empty_conv)
    moreover have "0 < CuckooK" by (simp add: CuckooK_def)
    ultimately have "cuckoo_count m (illegalkey m) \<and> cuckoo_find m (illegalkey m) \<noteq> cuckoo_end m"
      using c [of m] by blast
    then show ?thesis using w by (simp add: cm_keys_def)
  qed
  show ?thesis using a b c [of m'] by (intro conjI allI impI) blast+
qed

theorem sentinel_spurious_hit_witness:
  "cuckoo_map_new 129 (0::nat) 8 of_nat 0 (Pair 0) (0::nat)
     = Some (empty_map (0::nat) 8 of_nat 0 (Pair 0) (0::nat)) \<and>
   cm_entries (empty_map (0::nat) 8 of_nat 0 (Pair 0) (0::nat)) = [] \<and>
   cuckoo_count (empty_map (0::nat) 8 of_nat 0 (Pair 0) (0::nat)) 0 \<and>
   cuckoo_find (empty_map (0::nat) 8 of_nat 0 (Pair 0) (0::nat)) 0
     \<noteq> cuckoo_end (empty_map (0::nat) 8 of_nat 0 (Pair 0) (0::nat))"
  using sentinel_spurious_hit [where ik = "0::nat" and stashsize = 8 and h = of_nat and seed = 0
      and kr = "Pair 0" and dflt = "0::nat"]
  by blast

subsection \<open>Iteration\<close>

lemma live_from_0: "live_from m 0 = live m"
  by (simp add: live_from_def live_def)

lemma live_from_step:
  assumes "i < length (data m)"
  shows "live_from m i =
           (if fst (data m ! i) \<noteq> illegalkey m then [data m ! i] else []) @ live_from m (Suc i)"
proof -
  have "drop i (data m) = data m ! i # drop (Suc i) (data m)"
    using assms by (simp add: Cons_nth_drop_Suc)
  then show ?thesis by (simp add: live_from_def)
qed

lemma skip_illegal_spec:
  "datalen m = length (data m) \<Longrightarrow> i \<le> datalen m \<Longrightarrow>
     i \<le> skip_illegal m i \<and> skip_illegal m i \<le> datalen m \<and>
     live_from m (skip_illegal m i) = live_from m i \<and>
     (skip_illegal m i < datalen m \<longrightarrow> fst (data m ! skip_illegal m i) \<noteq> illegalkey m)"
proof (induction m i rule: skip_illegal.induct)
  case (1 m i)
  show ?case
  proof (cases "i < datalen m \<and> fst (data m ! i) = illegalkey m")
    case True
    then have s: "skip_illegal m i = skip_illegal m (i + 1)"
      by (subst skip_illegal.simps) simp
    have l: "live_from m i = live_from m (i + 1)"
      using True "1.prems"(1) live_from_step [of i m] by simp
    have "i + 1 \<le> datalen m" using True by simp
    from "1.IH" [OF True "1.prems"(1) this] show ?thesis
      unfolding s l by auto
  next
    case False
    then have s: "skip_illegal m i = i" by (subst skip_illegal.simps) auto
    show ?thesis unfolding s using False "1.prems" by auto
  qed
qed

lemma iterate_stash:
  "distinct (map fst (stash m)) \<Longrightarrow> stash m = pre @ suf \<Longrightarrow> length suf \<le> n \<Longrightarrow>
     iterate n m (StashIter (stash_begin suf)) = Some suf"
proof (induction suf arbitrary: pre n)
  case Nil
  then show ?case by (cases n) (simp_all add: stash_begin_def cuckoo_end_def)
next
  case (Cons e rest)
  from Cons.prems(3) obtain n' where n: "n = Suc n'" "length rest \<le> n'" by (cases n) auto
  have np: "\<forall>x \<in> set pre. fst x \<noteq> fst e"
    using Cons.prems(1,2) by (auto simp: image_iff)
  have d: "iter_deref m (StashIter (Some (fst e))) = Some e"
    using np by (simp add: iter_deref_def Cons.prems(2) find_append_skip)
  have "dropWhile (\<lambda>x. fst x \<noteq> fst e) (pre @ e # rest) = e # rest"
    using np by (simp add: dropWhile_append2)
  then have nx: "iter_next m (StashIter (Some (fst e))) = StashIter (stash_begin rest)"
    by (simp add: iter_next_def stash_next_def Cons.prems(2))
  have "stash m = (pre @ [e]) @ rest" using Cons.prems(2) by simp
  from Cons.IH [OF Cons.prems(1) this n(2)]
  have "iterate n' m (StashIter (stash_begin rest)) = Some rest" .
  then show ?case
    using d nx by (simp add: n(1) stash_begin_def cuckoo_end_def)
qed

lemma iterate_from_slot:
  assumes dl: "datalen m = length (data m)" and ds: "distinct (map fst (stash m))"
  shows "i \<le> datalen m \<Longrightarrow> length (live_from m i) + length (stash m) \<le> n \<Longrightarrow>
           iterate n m (iter_at m i) = Some (live_from m i @ stash m)"
proof (induction "datalen m - i" arbitrary: i n rule: less_induct)
  case less
  let ?j = "skip_illegal m i"
  from skip_illegal_spec [OF dl less.prems(1)]
  have j: "i \<le> ?j" "?j \<le> datalen m" "live_from m ?j = live_from m i"
    "?j < datalen m \<longrightarrow> fst (data m ! ?j) \<noteq> illegalkey m" by simp_all
  show ?case
  proof (cases "?j = datalen m")
    case True
    then have "live_from m i = []" using j(3) dl by (simp add: live_from_def)
    moreover have "iterate n m (StashIter (stash_begin (stash m))) = Some (stash m)"
      using less.prems(2) by (intro iterate_stash [where pre = "[]"] ds) simp_all
    ultimately show ?thesis using True by (simp add: iter_at_def)
  next
    case False
    then have lt: "?j < datalen m" using j(2) by simp
    then have lv: "live_from m i = data m ! ?j # live_from m (Suc ?j)"
      using j(3,4) live_from_step [of ?j m] dl by simp
    then obtain n' where n: "n = Suc n'" "length (live_from m (Suc ?j)) + length (stash m) \<le> n'"
      using less.prems(2) by (cases n) auto
    have "datalen m - Suc ?j < datalen m - i" using lt j(1) by simp
    from less.hyps [OF this _ n(2)] lt
    have r: "iterate n' m (iter_at m (Suc ?j)) = Some (live_from m (Suc ?j) @ stash m)" by simp
    have nx: "iter_next m (VecIter ?j) = iter_at m (Suc ?j)"
      by (simp add: iter_next_def iter_at_def)
    have "iter_deref m (VecIter ?j) = Some (data m ! ?j)" using lt by (simp add: iter_deref_def)
    then have "iterate n m (VecIter ?j) = Some (data m ! ?j # live_from m (Suc ?j) @ stash m)"
      using r nx by (simp add: n(1) cuckoo_end_def)
    then show ?thesis using False lv by (simp add: iter_at_def)
  qed
qed

lemma iterate_begin:
  assumes "cm_inv m" "length (cm_entries m) \<le> n"
  shows "iterate n m (cuckoo_begin m) = Some (cm_entries m)"
proof -
  have dl: "datalen m = length (data m)" and dk: "distinct (cm_keys m)"
    using assms(1) by (auto simp: cm_inv_def cm_inv0_def)
  have ds: "distinct (map fst (stash m))" using dk by (simp add: cm_keys_def cm_entries_def)
  have b: "cuckoo_begin m = iter_at m 0" by (simp add: cuckoo_begin_def iter_at_def)
  from iterate_from_slot [OF dl ds, of 0 n] assms(2) show ?thesis
    by (simp add: b live_from_0 cm_entries_def)
qed

subsection \<open>Inserting a list of entries\<close>

lemma insert_all_eq: "insert_all n m vs = rehash_stash n m vs"
  by (induction vs arbitrary: m) (simp_all del: cuckoo_insert.simps split: option.splits)

lemma insert_all_spec:
  assumes "cm_wf (m :: ('k, 'v) cuckoo_map)" "distinct (map fst vs @ cm_keys m)"
    and "illegalkey m \<notin> set (map fst vs)" "insert_all n m vs = Some m'"
  shows "cm_wf m' \<and> same_params m m' \<and> mset (cm_entries m') = mset (cm_entries m) + mset vs \<and>
         datalen m \<le> datalen m'"
proof -
  have "cm_inv m" "misplaced m = {}" using assms(1) by (simp_all add: cm_wf_def)
  from rehash_stash_correct [OF this assms(2,3)] assms(4) show ?thesis
    by (simp add: insert_all_eq cm_wf_def)
qed

lemma insert_all_returns:
  assumes "cm_wf (m :: ('k, 'v) cuckoo_map)" "distinct (map fst vs @ cm_keys m)"
    and "illegalkey m \<notin> set (map fst vs)"
  shows "\<exists>n m'. insert_all n m vs = Some m'"
proof -
  define e where "e = length (cm_entries m) + length vs"
  have H: "\<exists>n r. do_insert n m v = Some r"
    if "cm_inv m" "fresh m v" "length (cm_entries m) < e"
    for m :: "('k, 'v) cuckoo_map" and v
    using do_insert_term_all [of e] that by blast
  have "cm_inv m" using assms(1) by (simp add: cm_wf_def)
  moreover have "length (cm_entries m) + length vs \<le> e" by (simp add: e_def)
  ultimately show ?thesis
    using rehash_stash_term_step [where e = e, OF H _ assms(2,3)] by (simp add: insert_all_eq)
qed

text \<open>
  C9 (rehash preservation).  Inserting a list of entries with distinct keys, none of them
  the sentinel, into a newly constructed map returns, however many resizes it goes through;
  afterwards the iteration from \<open>begin()\<close> to \<open>end()\<close> yields exactly the inserted entries,
  each once and with its value, no key twice, and \<open>size()\<close> is their number.
  The run that instantiates it has a stash threshold of 0 and a hash function that sends
  all keys to the same three slots, so that its fifth insertion resizes the array.
\<close>
theorem rehash_preservation:
  assumes "cuckoo_map_new n0 ik stashsize h seed kr dflt = Some (m0 :: ('k, 'v) cuckoo_map)"
    and "distinct (map fst vs)" and "ik \<notin> set (map fst vs)"
  shows "(\<exists>n m. insert_all n m0 vs = Some m) \<and>
         (\<forall>n m. insert_all n m0 vs = Some m \<longrightarrow>
            (\<exists>es. iterate (length vs) m (cuckoo_begin m) = Some es \<and> mset es = mset vs \<and>
                  distinct (map fst es)) \<and>
            cuckoo_size m = of_nat (length vs))"
proof -
  note w = cuckoo_map_new_wf [OF assms(1)]
  have d: "distinct (map fst vs @ cm_keys m0)" using assms(2) w(2) by (simp add: cm_keys_def)
  have ik: "illegalkey m0 \<notin> set (map fst vs)" using assms(3) w(3) by simp
  have a: "\<exists>n m. insert_all n m0 vs = Some m" using w(1) d ik by (rule insert_all_returns)
  have b: "(\<exists>es. iterate (length vs) m (cuckoo_begin m) = Some es \<and> mset es = mset vs \<and>
                  distinct (map fst es)) \<and>
            cuckoo_size m = of_nat (length vs)"
    if ia: "insert_all n m0 vs = Some m" for n m
  proof -
    from insert_all_spec [OF w(1) d ik ia]
    have wf: "cm_wf m" and e: "mset (cm_entries m) = mset vs" using w(2) by simp_all
    have inv: "cm_inv m" using wf by (simp add: cm_wf_def)
    have "size (mset (cm_entries m)) = size (mset vs)" using e by simp
    then have len: "length (cm_entries m) = length vs" by simp
    from iterate_begin [OF inv, of "length vs"] len
    have "iterate (length vs) m (cuckoo_begin m) = Some (cm_entries m)" by simp
    moreover have "distinct (map fst (cm_entries m))"
      using inv by (simp add: cm_inv_def cm_inv0_def cm_keys_def)
    moreover have "cuckoo_size m = of_nat (length vs)"
      using inv len by (simp add: cuckoo_size_def cm_inv_def cm_inv0_def)
    ultimately show ?thesis using e by blast
  qed
  from a b show ?thesis by blast
qed

subsection \<open>A run that is forced to resize\<close>

lemma live_within:
  assumes "cm_wf m" and "\<And>k. set (candidate_slots m k) \<subseteq> S" and "finite S"
  shows "length (live m) \<le> card S"
proof -
  have "length (live m) = card {i. i < length (data m) \<and> fst (data m ! i) \<noteq> illegalkey m}"
    by (simp add: live_def length_filter_conv_card)
  also have "\<dots> \<le> card S"
  proof (rule card_mono [OF assms(3)])
    show "{i. i < length (data m) \<and> fst (data m ! i) \<noteq> illegalkey m} \<subseteq> S"
    proof
      fix i assume "i \<in> {i. i < length (data m) \<and> fst (data m ! i) \<noteq> illegalkey m}"
      then have i: "i < length (data m)" "fst (data m ! i) \<noteq> illegalkey m" by simp_all
      have "i \<notin> misplaced m" using assms(1) by (simp add: cm_wf_def)
      then have "i \<in> set (candidate_slots m (fst (data m ! i)))" using i by (simp add: misplaced_def)
      then show "i \<in> S" using assms(2) by blast
    qed
  qed
  finally show ?thesis .
qed

lemma zero_hash_live:
  assumes "cm_wf m" "hashfun m = zero_hash"
  shows "length (live m) \<le> 3"
proof -
  let ?cs = "map (compute_hash (datalen m) 0) [0..<CuckooK]"
  have "candidate_slots m k = ?cs" for k
    using assms(2) by (simp add: candidate_slots_def zero_hash_def)
  then have "length (live m) \<le> card (set ?cs)"
    using assms(1) by (intro live_within) simp_all
  also have "\<dots> \<le> length ?cs" by (rule card_length)
  finally show ?thesis by (simp add: CuckooK_def)
qed

lemma forced_resize:
  assumes wf: "cm_wf (m :: (nat, 'v) cuckoo_map)" and "maxstash m = 0" "hashfun m = zero_hash"
    and "4 \<le> length (cm_entries m)" and "fresh m v" and "cuckoo_insert n m v = Some (it, b, m')"
  shows "datalen m * 3 div 2 \<le> datalen m'"
proof -
  have "length (live m) \<le> 3" using wf assms(3) by (rule zero_hash_live)
  moreover have "4 \<le> length (live m) + length (stash m)"
    using assms(4) by (simp add: cm_entries_def)
  ultimately have "0 < length (stash m)" by arith
  then have "maxstash m < length (stash m)" using assms(2) by (simp only:)
  moreover have "ins_post m v it m'"
    using cuckoo_insert_correct [OF _ assms(5,6)] wf by (simp add: cm_wf_def)
  ultimately show ?thesis by (simp add: ins_post_def)
qed

lemma insert_all_append:
  "insert_all n m (xs @ ys) =
     (case insert_all n m xs of None \<Rightarrow> None | Some m1 \<Rightarrow> insert_all n m1 ys)"
  by (induction xs arbitrary: m) (simp_all del: cuckoo_insert.simps split: option.splits)

theorem rehash_preservation_witness:
  "cuckoo_map_new 129 (0::nat) 0 zero_hash 0 (Pair 0) (0::nat)
     = Some (empty_map (0::nat) 0 zero_hash 0 (Pair 0) (0::nat)) \<and>
   distinct (map fst [(1::nat, 10::nat), (2, 20), (3, 30), (4, 40), (5, 50)]) \<and>
   (0::nat) \<notin> set (map fst [(1::nat, 10::nat), (2, 20), (3, 30), (4, 40), (5, 50)]) \<and>
   (\<exists>n m. insert_all n (empty_map (0::nat) 0 zero_hash 0 (Pair 0) (0::nat))
             [(1, 10), (2, 20), (3, 30), (4, 40), (5, 50)] = Some m \<and>
          192 \<le> datalen m \<and>
          (\<exists>es. iterate 5 m (cuckoo_begin m) = Some es \<and>
                mset es = mset [(1, 10), (2, 20), (3, 30), (4, 40), (5, 50)]) \<and>
          cuckoo_size m = 5)"
proof -
  let ?m0 = "empty_map (0::nat) 0 zero_hash 0 (Pair 0) (0::nat)"
  let ?vs4 = "[(1::nat, 10::nat), (2, 20), (3, 30), (4, 40)]"
  let ?vs = "[(1::nat, 10::nat), (2, 20), (3, 30), (4, 40), (5, 50)]"
  have new: "cuckoo_map_new 129 (0::nat) 0 zero_hash 0 (Pair 0) (0::nat) = Some ?m0"
    by (rule cuckoo_map_new_eq) simp
  have d: "distinct (map fst ?vs)" by simp
  have z: "(0::nat) \<notin> set (map fst ?vs)" by simp
  from rehash_preservation [OF new d z]
  obtain n m where ia: "insert_all n ?m0 ?vs = Some m"
    and r: "\<exists>es. iterate (length ?vs) m (cuckoo_begin m) = Some es \<and> mset es = mset ?vs \<and>
                 distinct (map fst es)"
    and sz: "cuckoo_size m = of_nat (length ?vs)"
    by blast
  have wf0: "cm_wf ?m0" by (rule empty_map_wf)
  have e0: "cm_entries ?m0 = []" by (rule empty_map_entries)
  have "?vs = ?vs4 @ [(5, 50)]" by simp
  then have "insert_all n ?m0 (?vs4 @ [(5, 50)]) = Some m" using ia by (simp only:)
  then have "(case insert_all n ?m0 ?vs4 of None \<Rightarrow> None
              | Some m1 \<Rightarrow> insert_all n m1 [(5, 50)]) = Some m"
    by (simp only: insert_all_append)
  then obtain m4 where i4: "insert_all n ?m0 ?vs4 = Some m4"
    and i5: "insert_all n m4 [(5, 50)] = Some m"
    by (cases "insert_all n ?m0 ?vs4")
       (simp_all del: insert_all.simps cuckoo_insert.simps)
  have d4: "distinct (map fst ?vs4 @ cm_keys ?m0)" by (simp add: cm_keys_def e0)
  have ik4: "illegalkey ?m0 \<notin> set (map fst ?vs4)" by (simp add: empty_map_def)
  from insert_all_spec [OF wf0 d4 ik4 i4]
  have wf4: "cm_wf m4" and sp4: "same_params ?m0 m4"
    and e4: "mset (cm_entries m4) = mset ?vs4" and dl4: "datalen ?m0 \<le> datalen m4"
    by (simp_all add: e0)
  have "size (mset (cm_entries m4)) = size (mset ?vs4)" using e4 by simp
  then have l4: "4 \<le> length (cm_entries m4)" by simp
  have ms: "maxstash m4 = 0" "hashfun m4 = zero_hash" "illegalkey m4 = 0"
    using sp4 by (simp_all add: same_params_def empty_map_def)
  have "set (cm_keys m4) = set (map fst ?vs4)"
    using e4 by (metis cm_keys_def mset_map set_mset_mset)
  then have fr: "fresh m4 (5, 50)" using ms(3) by (simp add: fresh_def)
  have "insert_all n m4 [(5, 50)] =
          (case cuckoo_insert n m4 (5, 50) of None \<Rightarrow> None | Some (it, b, m1) \<Rightarrow> Some m1)"
    by (simp del: cuckoo_insert.simps split: option.splits)
  with i5 obtain it b where ci: "cuckoo_insert n m4 (5, 50) = Some (it, b, m)"
    by (cases "cuckoo_insert n m4 (5, 50)")
       (auto simp del: insert_all.simps cuckoo_insert.simps)
  from forced_resize [OF wf4 ms(1,2) l4 fr ci] dl4 have "192 \<le> datalen m"
    by (simp add: empty_map_def)
  moreover have l5: "length ?vs = 5" by simp
  from r [unfolded l5] obtain es where "iterate 5 m (cuckoo_begin m) = Some es" "mset es = mset ?vs"
    by blast
  moreover have "cuckoo_size m = 5" using sz by simp
  ultimately have "insert_all n ?m0 ?vs = Some m \<and> 192 \<le> datalen m \<and>
      (\<exists>es. iterate 5 m (cuckoo_begin m) = Some es \<and> mset es = mset ?vs) \<and> cuckoo_size m = 5"
    using ia by blast
  then have "\<exists>n m. insert_all n ?m0 ?vs = Some m \<and> 192 \<le> datalen m \<and>
      (\<exists>es. iterate 5 m (cuckoo_begin m) = Some es \<and> mset es = mset ?vs) \<and> cuckoo_size m = 5"
    by blast
  then show ?thesis using new d z by (intro conjI)
qed

end
